theory Spec2Isabelle
  imports Complex_Main "HOL-Library.Product_Lexorder"
begin

section \<open>Python values used by the notebooks\<close>

text \<open>
  The two notebooks \<^verbatim>\<open>word2vec-skip-gram-tensorboard.ipynb\<close> and
  \<^verbatim>\<open>word2vec-skip-gram-restore-model.ipynb\<close> are modelled function by function.
  Exceptions are values of \<open>error\<close>; a fallible function returns \<open>error + 'a\<close>
  with \<open>Inl\<close> for the exception.
\<close>

datatype error = ZeroDivisionError | ValueError | KeyError | InvalidArgumentError

text \<open>
  A slice bound of Python: a negative bound counts from the end, and every bound is
  clipped to \<open>[0, len]\<close>.
\<close>

definition slice_bound :: "nat \<Rightarrow> int \<Rightarrow> nat" where
  "slice_bound n i = (if i < 0 then nat (max 0 (int n + i)) else min (nat i) n)"

text \<open>\<^verbatim>\<open>xs[a:b]\<close>\<close>

definition py_slice :: "'a list \<Rightarrow> int \<Rightarrow> int \<Rightarrow> 'a list" where
  "py_slice xs a b =
     (let lo = slice_bound (length xs) a; hi = slice_bound (length xs) b
      in take (hi - lo) (drop lo xs))"

text \<open>\<^verbatim>\<open>range(start, stop, step)\<close> for a step that is not zero.\<close>

definition py_range :: "int \<Rightarrow> int \<Rightarrow> int \<Rightarrow> int list" where
  "py_range start stop step =
     (if 0 < step
      then map (\<lambda>k. start + int k * step) [0 ..< nat ((stop - start + step - 1) div step)]
      else map (\<lambda>k. start + int k * step) [0 ..< nat ((start - stop - step - 1) div (- step))])"

text \<open>
  \<^verbatim>\<open>int(a / b)\<close> on integers: true division followed by truncation towards zero.
  The quotient is taken exactly (the float of \<^verbatim>\<open>a / b\<close> is exact enough for every
  list length that fits in memory).
\<close>

definition int_truediv :: "int \<Rightarrow> int \<Rightarrow> error + int" where
  "int_truediv a b =
     (if b = 0 then Inl ZeroDivisionError
      else Inr (sgn a * sgn b * (\<bar>a\<bar> div \<bar>b\<bar>)))"

text \<open>
  \<^verbatim>\<open>np.random.randint(low, high)\<close>: an integer of \<open>[low, high)\<close>. The draw is a
  64-bit signed integer: \<^verbatim>\<open>ValueError\<close> is raised when \<open>low\<close> is below \<open>- 2 ^ 63\<close>,
  when \<open>high\<close> is above \<open>2 ^ 63\<close>, and when the interval is empty. The randomness is an
  explicit input: \<open>r\<close> is the raw draw, and every value of the interval is reached by
  some \<open>r\<close>.
\<close>

definition randint :: "int \<Rightarrow> int \<Rightarrow> nat \<Rightarrow> error + int" where
  "randint low high r =
     (if low < - (2 ^ 63) \<or> 2 ^ 63 < high \<or> high \<le> low then Inl ValueError
      else Inr (low + int r mod (high - low)))"

text \<open>
  \<^verbatim>\<open>list(set(xs))\<close>: the elements of \<open>xs\<close> without repetition. The order in which
  Python iterates over a set is fixed by the hash table and not by the language, so it is
  a parameter: \<open>enum\<close> proposes an enumeration of the distinct elements, used when it
  is one, and the order of first occurrence is used otherwise.
\<close>

definition list_of_set :: "('a list \<Rightarrow> 'a list) \<Rightarrow> 'a list \<Rightarrow> 'a list" where
  "list_of_set enum xs =
     (let d = remdups xs; e = enum d
      in if distinct e \<and> set e = set d then e else d)"

section \<open>Making batches\<close>

text \<open>
  \<^verbatim>\<open>
  def get_target(words, idx, window_size=5):
      R = np.random.randint(1,window_size+1)
      start = np.max([0, idx - R])
      stop = idx + R
      target_words = set(words[start:idx] + words[idx+1: stop+1])
      return list(target_words)
  \<close>
  \<open>window\<close> is the body after the draw of \<open>R\<close>.
\<close>

definition window :: "('a list \<Rightarrow> 'a list) \<Rightarrow> 'a list \<Rightarrow> nat \<Rightarrow> int \<Rightarrow> 'a list" where
  "window enum words idx R =
     (let start = max 0 (int idx - R);
          stop = int idx + R;
          target_words = py_slice words start (int idx) @ py_slice words (int idx + 1) (stop + 1)
      in list_of_set enum target_words)"

definition get_target ::
  "('a list \<Rightarrow> 'a list) \<Rightarrow> 'a list \<Rightarrow> nat \<Rightarrow> int \<Rightarrow> nat \<Rightarrow> error + 'a list" where
  "get_target enum words idx window_size r =
     (case randint 1 (window_size + 1) r of
        Inl e \<Rightarrow> Inl e
      | Inr R \<Rightarrow> Inr (window enum words idx R))"

text \<open>
  \<^verbatim>\<open>
  def get_batches(words, batch_size, window_size=5):
      n_batches = int(len(words) / batch_size)
      words = words[:n_batches * batch_size]
      for idx in range(0, len(words), batch_size):
          x, y = [], []
          batch = words[idx: idx + batch_size]
          for i in range(len(batch)):
              batch_x = batch[i]
              batch_y = get_target(batch, i, window_size)
              y.extend(batch_y)
              x.extend([batch_x]*len(batch_y))
          yield x, y
  \<close>
  The random source \<open>rng\<close> gives the raw draws in the order they are made; the counter
  \<open>c\<close> of the draws made so far is the state threaded through both loops.
  \<open>batch_loop\<close> is the inner loop over the positions \<open>i\<close> of one batch, with the
  accumulators \<open>x\<close> and \<open>y\<close>.
\<close>

fun batch_loop ::
  "('a list \<Rightarrow> 'a list) \<Rightarrow> (nat \<Rightarrow> nat) \<Rightarrow> 'a list \<Rightarrow> int \<Rightarrow> nat list \<Rightarrow> nat
     \<Rightarrow> 'a list \<times> 'a list \<Rightarrow> error + (('a list \<times> 'a list) \<times> nat)" where
  "batch_loop enum rng batch window_size [] c (x, y) = Inr ((x, y), c)"
| "batch_loop enum rng batch window_size (i # is) c (x, y) =
     (let batch_x = batch ! i
      in case get_target enum batch i window_size (rng c) of
           Inl e \<Rightarrow> Inl e
         | Inr batch_y \<Rightarrow>
             batch_loop enum rng batch window_size is (Suc c)
               (x @ replicate (length batch_y) batch_x, y @ batch_y))"

text \<open>
  The outer loop over the start indices. The generator is modelled by the list of the
  batches it yields when it is run to its end, or the exception that ends it.
\<close>

fun batches_loop ::
  "('a list \<Rightarrow> 'a list) \<Rightarrow> (nat \<Rightarrow> nat) \<Rightarrow> 'a list \<Rightarrow> int \<Rightarrow> int \<Rightarrow> int list \<Rightarrow> nat
     \<Rightarrow> error + ('a list \<times> 'a list) list" where
  "batches_loop enum rng words batch_size window_size [] c = Inr []"
| "batches_loop enum rng words batch_size window_size (idx # idxs) c =
     (let batch = py_slice words idx (idx + batch_size)
      in case batch_loop enum rng batch window_size [0 ..< length batch] c ([], []) of
           Inl e \<Rightarrow> Inl e
         | Inr (xy, c') \<Rightarrow>
             (case batches_loop enum rng words batch_size window_size idxs c' of
                Inl e \<Rightarrow> Inl e
              | Inr rest \<Rightarrow> Inr (xy # rest)))"

definition get_batches ::
  "('a list \<Rightarrow> 'a list) \<Rightarrow> (nat \<Rightarrow> nat) \<Rightarrow> 'a list \<Rightarrow> int \<Rightarrow> int
     \<Rightarrow> error + ('a list \<times> 'a list) list" where
  "get_batches enum rng words batch_size window_size =
     (case int_truediv (int (length words)) batch_size of
        Inl e \<Rightarrow> Inl e
      | Inr n_batches \<Rightarrow>
          (let words' = py_slice words 0 (n_batches * batch_size)
           in batches_loop enum rng words' batch_size window_size
                (py_range 0 (int (length words')) batch_size) 0))"

text \<open>
  Closed forms of what the loops compute, for a window size \<open>C\<close> at which the draw does
  not raise, \<open>1 \<le> C < 2 ^ 63\<close>:
  \<open>radius\<close> is the \<open>R\<close> that \<open>get_target\<close> draws from the raw draw \<open>r\<close>,
  \<open>batch_y_at\<close> is \<open>batch_y\<close> at position \<open>i\<close> of a batch whose first draw has
  number \<open>c\<close>, and \<open>batch_xy\<close> is the pair \<open>(x, y)\<close> yielded for that batch.
\<close>

definition radius :: "int \<Rightarrow> nat \<Rightarrow> int" where
  "radius window_size r = 1 + int r mod window_size"

definition batch_y_at ::
  "('a list \<Rightarrow> 'a list) \<Rightarrow> (nat \<Rightarrow> nat) \<Rightarrow> int \<Rightarrow> 'a list \<Rightarrow> nat \<Rightarrow> nat \<Rightarrow> 'a list" where
  "batch_y_at enum rng window_size batch c i = window enum batch i (radius window_size (rng (c + i)))"

definition batch_xy ::
  "('a list \<Rightarrow> 'a list) \<Rightarrow> (nat \<Rightarrow> nat) \<Rightarrow> int \<Rightarrow> 'a list \<Rightarrow> nat \<Rightarrow> 'a list \<times> 'a list" where
  "batch_xy enum rng window_size batch c =
     (concat (map (\<lambda>i. replicate (length (batch_y_at enum rng window_size batch c i)) (batch ! i))
                [0 ..< length batch]),
      concat (map (batch_y_at enum rng window_size batch c) [0 ..< length batch]))"

section \<open>Subsampling\<close>

text \<open>
  \<^verbatim>\<open>
  def subsampling(words, threshold = 1e-5):
      words_count = Counter(words)
      total_count = len(words)
      freqs = {word: count/total_count for word, count in words_count.items()}
      p_drop = { word: 1 - np.sqrt(threshold/freqs[word]) for word in words_count}
      return [word for word in words if p_drop[word] < random.random()]
  \<close>
  A dictionary is an association list in the order of insertion, and \<open>lookup\<close> is
  \<^verbatim>\<open>d[k]\<close>.

  A float is the real number it stands for, and the result of an operation is the
  rounded one: the record \<open>ops\<close> gives, for the operands, the floats that \<^verbatim>\<open>a / b\<close>,
  \<^verbatim>\<open>np.sqrt(x)\<close> and \<^verbatim>\<open>a - b\<close> return. Nothing is assumed of it in the definitions, so
  they hold for the double precision arithmetic of the program and for every other
  rounding; \<open>exact\<close> is the arithmetic without rounding. Overflow to infinity is not
  modelled. \<^verbatim>\<open>a / b\<close> raises on a zero divisor, \<^verbatim>\<open>np.sqrt\<close> of a negative number is
  \<^verbatim>\<open>nan\<close> (the value \<open>None\<close>), arithmetic on \<^verbatim>\<open>nan\<close> gives \<^verbatim>\<open>nan\<close>, and a comparison
  with \<^verbatim>\<open>nan\<close> is false.

  The random source \<open>random\<close> gives the draws of \<^verbatim>\<open>random.random()\<close> in the order they
  are made, one for each occurrence of a word. \<open>Counter\<close> counts the elements from left
  to right; \<open>freqs_loop\<close>, \<open>p_drop_loop\<close> and \<open>keep_loop\<close> are the three
  comprehensions, and \<open>subsampling_freqs\<close> and \<open>subsampling_p_drop\<close> are the tables
  \<open>freqs\<close> and \<open>p_drop\<close> of the function.
\<close>

record rounding =
  rdiv :: "real \<Rightarrow> real \<Rightarrow> real"
  rsqrt :: "real \<Rightarrow> real"
  rsub :: "real \<Rightarrow> real \<Rightarrow> real"

definition exact :: rounding where
  "exact = \<lparr>rdiv = (/), rsqrt = sqrt, rsub = (-)\<rparr>"

definition lookup :: "('k \<times> 'v) list \<Rightarrow> 'k \<Rightarrow> error + 'v" where
  "lookup d k = (case map_of d k of None \<Rightarrow> Inl KeyError | Some v \<Rightarrow> Inr v)"

definition py_truediv :: "rounding \<Rightarrow> real \<Rightarrow> real \<Rightarrow> error + real" where
  "py_truediv ops a b = (if b = 0 then Inl ZeroDivisionError else Inr (rdiv ops a b))"

definition np_sqrt :: "rounding \<Rightarrow> real \<Rightarrow> real option" where
  "np_sqrt ops x = (if x < 0 then None else Some (rsqrt ops x))"

definition nan_less :: "real option \<Rightarrow> real \<Rightarrow> bool" where
  "nan_less p u = (case p of None \<Rightarrow> False | Some q \<Rightarrow> q < u)"

fun counter_add :: "'a \<Rightarrow> ('a \<times> nat) list \<Rightarrow> ('a \<times> nat) list" where
  "counter_add w [] = [(w, 1)]"
| "counter_add w ((k, c) # kvs) =
     (if k = w then (k, Suc c) # kvs else (k, c) # counter_add w kvs)"

definition Counter :: "'a list \<Rightarrow> ('a \<times> nat) list" where
  "Counter words = fold counter_add words []"

fun freqs_loop :: "rounding \<Rightarrow> ('a \<times> nat) list \<Rightarrow> nat \<Rightarrow> error + ('a \<times> real) list" where
  "freqs_loop ops [] total_count = Inr []"
| "freqs_loop ops ((word, count) # items) total_count =
     (case py_truediv ops (real count) (real total_count) of
        Inl e \<Rightarrow> Inl e
      | Inr f \<Rightarrow>
          (case freqs_loop ops items total_count of
             Inl e \<Rightarrow> Inl e
           | Inr rest \<Rightarrow> Inr ((word, f) # rest)))"

fun p_drop_loop ::
  "rounding \<Rightarrow> 'a list \<Rightarrow> ('a \<times> real) list \<Rightarrow> real \<Rightarrow> error + ('a \<times> real option) list" where
  "p_drop_loop ops [] freqs threshold = Inr []"
| "p_drop_loop ops (word # keys) freqs threshold =
     (case lookup freqs word of
        Inl e \<Rightarrow> Inl e
      | Inr f \<Rightarrow>
          (case py_truediv ops threshold f of
             Inl e \<Rightarrow> Inl e
           | Inr q \<Rightarrow>
               (case p_drop_loop ops keys freqs threshold of
                  Inl e \<Rightarrow> Inl e
                | Inr rest \<Rightarrow> Inr ((word, map_option (rsub ops 1) (np_sqrt ops q)) # rest))))"

fun keep_loop :: "('a \<times> real option) list \<Rightarrow> (nat \<Rightarrow> real) \<Rightarrow> 'a list \<Rightarrow> nat \<Rightarrow> error + 'a list" where
  "keep_loop p_drop random [] c = Inr []"
| "keep_loop p_drop random (word # ws) c =
     (case lookup p_drop word of
        Inl e \<Rightarrow> Inl e
      | Inr p \<Rightarrow>
          (case keep_loop p_drop random ws (Suc c) of
             Inl e \<Rightarrow> Inl e
           | Inr rest \<Rightarrow> Inr (if nan_less p (random c) then word # rest else rest)))"

definition subsampling_freqs :: "rounding \<Rightarrow> 'a list \<Rightarrow> error + ('a \<times> real) list" where
  "subsampling_freqs ops words = freqs_loop ops (Counter words) (length words)"

definition subsampling_p_drop ::
  "rounding \<Rightarrow> 'a list \<Rightarrow> real \<Rightarrow> error + ('a \<times> real option) list" where
  "subsampling_p_drop ops words threshold =
     (case subsampling_freqs ops words of
        Inl e \<Rightarrow> Inl e
      | Inr freqs \<Rightarrow> p_drop_loop ops (map fst (Counter words)) freqs threshold)"

definition subsampling :: "rounding \<Rightarrow> 'a list \<Rightarrow> real \<Rightarrow> (nat \<Rightarrow> real) \<Rightarrow> error + 'a list" where
  "subsampling ops words threshold random =
     (case subsampling_p_drop ops words threshold of
        Inl e \<Rightarrow> Inl e
      | Inr p_drop \<Rightarrow> keep_loop p_drop random words 0)"

text \<open>
  The quantities the description of the subsampler names, as the program computes
  them: the frequency of a token, its count divided by the length of the sequence, the
  drop probability \<open>1 - sqrt (t / f)\<close>, and the entry of \<open>p_drop\<close> for any threshold.

  Two properties of a rounding, both true of the rounding to nearest of the program
  and of \<open>exact\<close>. \<open>rounding_keeps_sign\<close>: the quotient of a count by a total that is
  not smaller is positive (it does not underflow to zero), and the quotient of a number
  that is not negative by a positive one is not negative. \<open>rounding_monotone\<close>: a
  larger divisor does not give a larger quotient, a larger argument does not give a
  smaller square root, and a larger subtrahend does not give a larger difference.
\<close>

definition frequency :: "rounding \<Rightarrow> 'a list \<Rightarrow> 'a \<Rightarrow> real" where
  "frequency ops words w = rdiv ops (real (count_list words w)) (real (length words))"

definition drop_probability :: "rounding \<Rightarrow> 'a list \<Rightarrow> real \<Rightarrow> 'a \<Rightarrow> real" where
  "drop_probability ops words t w = rsub ops 1 (rsqrt ops (rdiv ops t (frequency ops words w)))"

definition p_drop_value :: "rounding \<Rightarrow> 'a list \<Rightarrow> real \<Rightarrow> 'a \<Rightarrow> real option" where
  "p_drop_value ops words t w = map_option (rsub ops 1) (np_sqrt ops (rdiv ops t (frequency ops words w)))"

definition rounding_keeps_sign :: "rounding \<Rightarrow> bool" where
  "rounding_keeps_sign ops =
     ((\<forall>c n :: nat. 0 < c \<and> c \<le> n \<longrightarrow> 0 < rdiv ops (real c) (real n)) \<and>
      (\<forall>a b. 0 \<le> a \<and> 0 < b \<longrightarrow> 0 \<le> rdiv ops a b))"

definition rounding_monotone :: "rounding \<Rightarrow> bool" where
  "rounding_monotone ops =
     ((\<forall>a b c. 0 \<le> a \<and> 0 < b \<and> b \<le> c \<longrightarrow> rdiv ops a c \<le> rdiv ops a b) \<and>
      (\<forall>x y. 0 \<le> x \<and> x \<le> y \<longrightarrow> rsqrt ops x \<le> rsqrt ops y) \<and>
      (\<forall>x y. x \<le> y \<longrightarrow> rsub ops 1 y \<le> rsub ops 1 x))"

section \<open>Nearest-neighbour validation\<close>

text \<open>
  \<^verbatim>\<open>
  def validate(embeddings, int_codes):
      sample_examples = np.array(int_codes)
      sample_dataset = tf.constant(sample_examples, dtype=tf.int32)
      norm = tf.sqrt(tf.reduce_sum(tf.square(embeddings), 1, keep_dims=True))
      normalized_embedding = embeddings / norm
      sample_embedding = tf.nn.embedding_lookup(normalized_embedding, sample_dataset)
      return tf.matmul(sample_embedding, tf.transpose(normalized_embedding))
  \<close>
  and, for the row \<open>i\<close> of the result,
  \<^verbatim>\<open>nearest = (-sim[i, :]).argsort()[1:top_k+1]\<close>.

  The embedding table is the list of its rows, all of the same length. The arithmetic
  of the similarities is the exact one, with \<open>None\<close> for \<^verbatim>\<open>nan\<close>: the norm of a row is
  zero only when the row is zero, and then every entry of the normalized row is
  \<^verbatim>\<open>0 / 0\<close>. The single precision floats of the program round each operation, so a
  similarity of the program can differ from the exact one; what is proved below about
  the ranking uses only the order of the similarities within a row and holds for any
  row (\<open>hd_notin_nearest\<close>, \<open>argsort_hd_strict\<close>). The lookup of an id outside the table
  fails.

  \<^verbatim>\<open>argsort\<close> sorts \<^verbatim>\<open>nan\<close> last, so the key of a similarity is the pair of the flag
  "is \<^verbatim>\<open>nan\<close>" and the negated value, in lexicographic order. NumPy's default sort
  (\<^verbatim>\<open>kind='quicksort'\<close>) is documented as not stable, and the order it gives to equal
  keys depends on its implementation, which is not part of the notebooks. That order is
  the parameter \<open>tie\<close>, which proposes a result; the proposal is used when it is a
  permutation of the indices that sorts the keys, and the stable result otherwise. A
  property proved for every \<open>tie\<close> holds of the sort the program runs, whichever order
  it gives to equal keys. \<open>argsort_stable\<close> is the result of a stable sort: the indices
  in the order of their keys, and of their own value among equal keys.
\<close>

type_synonym float = "real option"

definition fl_div :: "real \<Rightarrow> real \<Rightarrow> float" where
  "fl_div x y = (if y = 0 then None else Some (x / y))"

definition fl_mul :: "float \<Rightarrow> float \<Rightarrow> float" where
  "fl_mul a b = (case a of None \<Rightarrow> None | Some x \<Rightarrow> (case b of None \<Rightarrow> None | Some y \<Rightarrow> Some (x * y)))"

definition fl_add :: "float \<Rightarrow> float \<Rightarrow> float" where
  "fl_add a b = (case a of None \<Rightarrow> None | Some x \<Rightarrow> (case b of None \<Rightarrow> None | Some y \<Rightarrow> Some (x + y)))"

definition norm_row :: "real list \<Rightarrow> real" where
  "norm_row row = sqrt (sum_list (map (\<lambda>x. x * x) row))"

definition dot :: "float list \<Rightarrow> float list \<Rightarrow> float" where
  "dot u v = foldl fl_add (Some 0) (map2 fl_mul u v)"

fun embedding_lookup :: "'a list \<Rightarrow> int list \<Rightarrow> error + 'a list" where
  "embedding_lookup params [] = Inr []"
| "embedding_lookup params (i # ids) =
     (if i < 0 \<or> int (length params) \<le> i then Inl InvalidArgumentError
      else (case embedding_lookup params ids of
              Inl e \<Rightarrow> Inl e
            | Inr rows \<Rightarrow> Inr (params ! nat i # rows)))"

definition validate :: "real list list \<Rightarrow> int list \<Rightarrow> error + float list list" where
  "validate embeddings int_codes =
     (let normalized_embedding = map (\<lambda>row. map (\<lambda>x. fl_div x (norm_row row)) row) embeddings
      in case embedding_lookup normalized_embedding int_codes of
           Inl e \<Rightarrow> Inl e
         | Inr sample_embedding \<Rightarrow>
             Inr (map (\<lambda>s. map (\<lambda>r. dot s r) normalized_embedding) sample_embedding))"

definition neg_key :: "float \<Rightarrow> bool \<times> real" where
  "neg_key s = (case s of None \<Rightarrow> (True, 0) | Some v \<Rightarrow> (False, - v))"

definition argsort_stable :: "(bool \<times> real) list \<Rightarrow> nat list" where
  "argsort_stable keys = map snd (sort (zip keys [0 ..< length keys]))"

definition argsort :: "((bool \<times> real) list \<Rightarrow> nat list) \<Rightarrow> (bool \<times> real) list \<Rightarrow> nat list" where
  "argsort tie keys =
     (let p = tie keys
      in if sort p = [0 ..< length keys] \<and> sorted (map ((!) keys) p)
         then p else argsort_stable keys)"

definition nearest :: "((bool \<times> real) list \<Rightarrow> nat list) \<Rightarrow> float list \<Rightarrow> int \<Rightarrow> nat list" where
  "nearest tie sim_row top_k = py_slice (argsort tie (map neg_key sim_row)) 1 (top_k + 1)"

section \<open>Saving the vocabulary\<close>

text \<open>
  \<^verbatim>\<open>
  dictionary_path = 'model_data_{}_{}.cpkt'.format(embed_dim, num_sampled)

  if os.path.exists(dictionary_path):
      os.remove(dictionary_path)
  else:
      to_save = {
          'vocab_to_int': vocab_to_int,
          'int_to_vocab': int_to_vocab,
          'embed_dim': embed_dim,
          'num_sampled': num_sampled
      }
      with open(dictionary_path, 'wb') as f:
          pickle.dump(to_save,f)
  \<close>
  The state is the file system: the content of each file, which for a pickle file is
  the dictionary that was dumped into it, and the number of calls of \<^verbatim>\<open>pickle.dump\<close>.
\<close>

record artifact =
  vocab_to_int :: "(string \<times> nat) list"
  int_to_vocab :: "(nat \<times> string) list"
  embed_dim :: nat
  num_sampled :: nat

record filesystem =
  files :: "string \<rightharpoonup> artifact"
  dumps :: nat

fun string_of_nat :: "nat \<Rightarrow> string" where
  "string_of_nat n =
     (if n < 10 then [char_of (48 + n)]
      else string_of_nat (n div 10) @ [char_of (48 + n mod 10)])"

declare string_of_nat.simps [simp del]

definition dictionary_path_of :: "nat \<Rightarrow> nat \<Rightarrow> string" where
  "dictionary_path_of ed ns =
     ''model_data_'' @ string_of_nat ed @ ''_'' @ string_of_nat ns @ ''.cpkt''"

definition save_vocabulary ::
  "(string \<times> nat) list \<Rightarrow> (nat \<times> string) list \<Rightarrow> nat \<Rightarrow> nat \<Rightarrow> filesystem \<Rightarrow> filesystem" where
  "save_vocabulary v2i i2v ed ns fs =
     (let dictionary_path = dictionary_path_of ed ns
      in if files fs dictionary_path \<noteq> None
         then fs\<lparr>files := (files fs)(dictionary_path := None)\<rparr>
         else (let to_save = \<lparr>vocab_to_int = v2i, int_to_vocab = i2v,
                               embed_dim = ed, num_sampled = ns\<rparr>
               in fs\<lparr>files := (files fs)(dictionary_path \<mapsto> to_save),
                     dumps := dumps fs + 1\<rparr>))"

section \<open>Slices, windows and the two loops\<close>

lemma set_take_drop_nth:
  "set (take m (drop l xs)) = {xs ! j | j. l \<le> j \<and> j < l + m \<and> j < length xs}"
proof (intro set_eqI iffI)
  fix x assume "x \<in> set (take m (drop l xs))"
  then obtain i where i: "i < length (take m (drop l xs))" "x = take m (drop l xs) ! i"
    by (auto simp: in_set_conv_nth)
  then have "x = xs ! (l + i)" "i < m" "l + i < length xs" by auto
  then show "x \<in> {xs ! j | j. l \<le> j \<and> j < l + m \<and> j < length xs}"
    by (intro CollectI exI[of _ "l + i"]) simp
next
  fix x assume "x \<in> {xs ! j | j. l \<le> j \<and> j < l + m \<and> j < length xs}"
  then obtain j where j: "x = xs ! j" "l \<le> j" "j < l + m" "j < length xs" by blast
  then have "j - l < length (take m (drop l xs))" "take m (drop l xs) ! (j - l) = x"
    by auto
  then show "x \<in> set (take m (drop l xs))"
    using nth_mem by blast
qed

lemma set_py_slice:
  assumes "0 \<le> a" "0 \<le> b"
  shows "set (py_slice xs a b) = {xs ! j | j. a \<le> int j \<and> int j < b \<and> j < length xs}"
proof -
  have "(min (nat a) (length xs) \<le> j \<and> j < min (nat a) (length xs) + (min (nat b) (length xs) - min (nat a) (length xs)) \<and> j < length xs)
        = (a \<le> int j \<and> int j < b \<and> j < length xs)" for j
    using assms by (auto simp: min_def)
  then show ?thesis
    using assms by (simp add: py_slice_def slice_bound_def Let_def set_take_drop_nth)
qed

lemma set_list_of_set: "set (list_of_set enum xs) = set xs"
  by (simp add: list_of_set_def Let_def)

lemma distinct_list_of_set: "distinct (list_of_set enum xs)"
  by (simp add: list_of_set_def Let_def)

lemma set_window:
  assumes "0 \<le> R"
  shows "set (window enum words idx R) =
         {words ! j | j. j < length words \<and> j \<noteq> idx \<and> \<bar>int j - int idx\<bar> \<le> R}"
proof -
  have cond: "(max 0 (int idx - R) \<le> int j \<and> int j < int idx \<and> j < length words \<or>
         int idx + 1 \<le> int j \<and> int j < int idx + R + 1 \<and> j < length words)
        = (j < length words \<and> j \<noteq> idx \<and> \<bar>int j - int idx\<bar> \<le> R)" for j
    using assms by auto
  have "set (window enum words idx R) =
        set (py_slice words (max 0 (int idx - R)) (int idx)) \<union>
        set (py_slice words (int idx + 1) (int idx + R + 1))"
    by (simp add: window_def Let_def set_list_of_set)
  also have "\<dots> = {words ! j | j. max 0 (int idx - R) \<le> int j \<and> int j < int idx \<and> j < length words \<or>
         int idx + 1 \<le> int j \<and> int j < int idx + R + 1 \<and> j < length words}"
    using assms by (subst set_py_slice, simp, simp, subst set_py_slice, simp, simp) blast
  also have "\<dots> = {words ! j | j. j < length words \<and> j \<noteq> idx \<and> \<bar>int j - int idx\<bar> \<le> R}"
    unfolding cond ..
  finally show ?thesis .
qed

lemma get_target_radius:
  "1 \<le> ws \<and> ws < 2 ^ 63 \<Longrightarrow> get_target enum words idx ws r = Inr (window enum words idx (radius ws r))"
  by (simp add: get_target_def randint_def radius_def)

lemma radius_range: "1 \<le> ws \<Longrightarrow> 1 \<le> radius ws r \<and> radius ws r \<le> ws"
  by (simp add: radius_def) (smt (verit) pos_mod_bound pos_mod_sign)

lemma batch_loop_char:
  assumes "1 \<le> ws \<and> ws < 2 ^ 63"
  shows "batch_loop enum rng batch ws is c (x, y) =
         Inr ((x @ concat (map (\<lambda>i. replicate (length (window enum batch (fst i) (radius ws (rng (snd i))))) (batch ! fst i))
                        (zip is [c ..< c + length is])),
               y @ concat (map (\<lambda>i. window enum batch (fst i) (radius ws (rng (snd i))))
                        (zip is [c ..< c + length is]))),
              c + length is)"
proof (induction "is" arbitrary: c x y)
  case Nil
  show ?case by simp
next
  case (Cons i "is")
  have "c < c + length (i # is)" by simp
  from upt_conv_Cons[OF this]
  have upt: "[c ..< c + length (i # is)] = c # [Suc c ..< Suc c + length is]"
    by simp
  show ?case
    unfolding upt
    by (simp add: get_target_radius[OF assms] Cons.IH Let_def)
qed

lemma zip_upt_shift: "zip [0 ..< n] [c ..< c + n] = map (\<lambda>i. (i, c + i)) [0 ..< n]"
  by (rule nth_equalityI) simp_all

lemma batch_loop_batch_xy:
  assumes "1 \<le> ws \<and> ws < 2 ^ 63"
  shows "batch_loop enum rng batch ws [0 ..< length batch] c ([], []) =
         Inr (batch_xy enum rng ws batch c, c + length batch)"
  by (simp add: batch_loop_char[OF assms] zip_upt_shift batch_xy_def batch_y_at_def[abs_def] o_def)

lemma py_slice_take_drop:
  "py_slice xs (int a) (int a + int b) = take b (drop a xs)"
  by (auto simp: py_slice_def slice_bound_def Let_def min_def nat_add_distrib)

lemma batches_loop_char:
  assumes "0 < B" "1 \<le> ws \<and> ws < 2 ^ 63" "n * B \<le> length xs"
  shows "n - k0 = d \<Longrightarrow> batches_loop enum rng xs (int B) ws (map (\<lambda>k. int k * int B) [k0 ..< n]) (k0 * B) =
         Inr (map (\<lambda>k. batch_xy enum rng ws (take B (drop (k * B) xs)) (k * B)) [k0 ..< n])"
proof (induction d arbitrary: k0)
  case 0
  then show ?case by simp
next
  case (Suc d)
  then have lt: "k0 < n" and d: "n - Suc k0 = d" by auto
  have "Suc k0 * B \<le> n * B" using lt by (simp add: Suc_leI mult_le_mono1 del: mult_Suc)
  then have len: "length (take B (drop (k0 * B) xs)) = B"
    using assms(3) by simp
  have sl: "py_slice xs (int k0 * int B) (int k0 * int B + int B) = take B (drop (k0 * B) xs)"
    using py_slice_take_drop[of xs "k0 * B" B] by simp
  have IH: "batches_loop enum rng xs (int B) ws (map (\<lambda>k. int k * int B) [Suc k0 ..< n]) (k0 * B + B) =
         Inr (map (\<lambda>k. batch_xy enum rng ws (take B (drop (k * B) xs)) (k * B)) [Suc k0 ..< n])"
    using Suc.IH[OF d] by (simp add: add.commute)
  have bl: "batch_loop enum rng (take B (drop (k0 * B) xs)) ws [0 ..< B] (k0 * B) ([], []) =
         Inr (batch_xy enum rng ws (take B (drop (k0 * B) xs)) (k0 * B), k0 * B + B)"
    using batch_loop_batch_xy[OF assms(2), of enum rng "take B (drop (k0 * B) xs)" "k0 * B"]
    unfolding len .
  show ?case
    unfolding upt_conv_Cons[OF lt] list.map batches_loop.simps sl Let_def len bl
      sum.case prod.case IH ..
qed

lemma int_truediv_nat: "0 < B \<Longrightarrow> int_truediv (int N) (int B) = Inr (int (N div B))"
  by (cases "N = 0") (simp_all add: int_truediv_def zdiv_int)

lemma py_range_batches:
  assumes "0 < B"
  shows "py_range 0 (int (n * B)) (int B) = map (\<lambda>k. int k * int B) [0 ..< n]"
proof -
  have "(int (n * B) - 0 + int B - 1) div int B = ((int B - 1) + int n * int B) div int B"
    by (simp add: algebra_simps)
  also have "\<dots> = int n + (int B - 1) div int B"
    using assms by simp
  also have "\<dots> = int n"
    using assms by simp
  finally show ?thesis using assms by (simp add: py_range_def)
qed

lemma get_batches_char:
  assumes "0 < B" "1 \<le> ws \<and> ws < 2 ^ 63"
  shows "get_batches enum rng words (int B) ws =
         Inr (map (\<lambda>k. batch_xy enum rng ws (take B (drop (k * B) words)) (k * B))
                [0 ..< length words div B])"
proof -
  let ?n = "length words div B"
  let ?xs = "take (?n * B) words"
  have le: "?n * B \<le> length words" by simp
  have sl: "py_slice words 0 (int ?n * int B) = ?xs"
    using py_slice_take_drop[of words 0 "?n * B"] by simp
  have len: "length ?xs = ?n * B" using le by simp
  have td: "take B (drop (k * B) ?xs) = take B (drop (k * B) words)" if "k < ?n" for k
  proof -
    have "Suc k * B \<le> ?n * B" using that by (simp add: Suc_leI mult_le_mono1 del: mult_Suc)
    then have "B \<le> ?n * B - k * B" by simp
    then show ?thesis by (simp add: drop_take)
  qed
  have "get_batches enum rng words (int B) ws =
        batches_loop enum rng ?xs (int B) ws (map (\<lambda>k. int k * int B) [0 ..< ?n]) (0 * B)"
    unfolding get_batches_def int_truediv_nat[OF assms(1)] sum.case Let_def sl len
      py_range_batches[OF assms(1)] by simp
  also have "\<dots> = Inr (map (\<lambda>k. batch_xy enum rng ws (take B (drop (k * B) ?xs)) (k * B)) [0 ..< ?n])"
    by (rule batches_loop_char[OF assms _ refl]) simp
  also have "\<dots> = Inr (map (\<lambda>k. batch_xy enum rng ws (take B (drop (k * B) words)) (k * B)) [0 ..< ?n])"
    using td by simp
  finally show ?thesis .
qed

lemma length_concat_replicate:
  "length (concat (map (\<lambda>i. replicate (length (f i)) (g i)) is)) = length (concat (map f is))"
  by (induction "is") simp_all

lemma zip_concat_replicate:
  "zip (concat (map (\<lambda>i. replicate (length (f i)) (g i)) is)) (concat (map f is)) =
   concat (map (\<lambda>i. map (Pair (g i)) (f i)) is)"
  by (induction "is") (simp_all add: zip_replicate1)

lemma batch_xy_length:
  "length (fst (batch_xy enum rng ws batch c)) = length (snd (batch_xy enum rng ws batch c))"
  by (simp add: batch_xy_def length_concat_replicate)

lemma batch_xy_zip:
  "zip (fst (batch_xy enum rng ws batch c)) (snd (batch_xy enum rng ws batch c)) =
   concat (map (\<lambda>i. map (Pair (batch ! i)) (batch_y_at enum rng ws batch c i)) [0 ..< length batch])"
  by (simp add: batch_xy_def zip_concat_replicate)

lemma batch_full:
  assumes "k < length words div B"
  shows "length (take B (drop (k * B) words)) = B"
    and "i < B \<Longrightarrow> take B (drop (k * B) words) ! i = words ! (k * B + i)"
proof -
  have "Suc k * B \<le> (length words div B) * B"
    using assms by (simp add: Suc_leI mult_le_mono1 del: mult_Suc)
  also have "\<dots> \<le> length words" by simp
  finally have le: "k * B + B \<le> length words" by simp
  then show "length (take B (drop (k * B) words)) = B" by simp
  show "take B (drop (k * B) words) ! i = words ! (k * B + i)" if "i < B"
    using that le by simp
qed

lemma batch_y_at_props:
  assumes "1 \<le> ws"
  shows "distinct (batch_y_at enum rng ws batch c i)"
    and "set (batch_y_at enum rng ws batch c i) =
         {batch ! p | p. p < length batch \<and> p \<noteq> i \<and> \<bar>int p - int i\<bar> \<le> radius ws (rng (c + i))}"
proof -
  show "distinct (batch_y_at enum rng ws batch c i)"
    by (simp add: batch_y_at_def window_def Let_def distinct_list_of_set)
  have "0 \<le> radius ws (rng (c + i))" using radius_range[OF assms, of "rng (c + i)"] by simp
  from set_window[OF this] show "set (batch_y_at enum rng ws batch c i) =
         {batch ! p | p. p < length batch \<and> p \<noteq> i \<and> \<bar>int p - int i\<bar> \<le> radius ws (rng (c + i))}"
    by (simp add: batch_y_at_def)
qed

lemma get_batches_small:
  assumes "length words < B"
  shows "get_batches enum rng words (int B) ws = Inr []"
proof -
  have B: "0 < B" using assms by simp
  have "length words div B = 0" using assms by simp
  then show ?thesis
    unfolding get_batches_def int_truediv_nat[OF B]
    by (simp add: py_slice_def slice_bound_def py_range_def)
qed

lemma batches_nth:
  assumes "k < length words div B"
  shows "map (\<lambda>k. batch_xy enum rng ws (take B (drop (k * B) words)) (k * B))
               [0 ..< length words div B] ! k = batch_xy enum rng ws (take B (drop (k * B) words)) (k * B)"
  using assms by simp

lemma batch_xy_full:
  assumes "length batch = B"
  shows "fst (batch_xy enum rng ws batch c) =
           concat (map (\<lambda>i. replicate (length (batch_y_at enum rng ws batch c i)) (batch ! i)) [0 ..< B])"
    and "snd (batch_xy enum rng ws batch c) = concat (map (batch_y_at enum rng ws batch c) [0 ..< B])"
    and "zip (fst (batch_xy enum rng ws batch c)) (snd (batch_xy enum rng ws batch c)) =
           concat (map (\<lambda>i. map (Pair (batch ! i)) (batch_y_at enum rng ws batch c i)) [0 ..< B])"
  using batch_xy_zip[of enum rng ws batch c] unfolding assms[symmetric]
  by (simp_all add: batch_xy_def)

lemma get_target_batch_y_at:
  assumes "1 \<le> ws \<and> ws < 2 ^ 63"
  shows "get_target enum batch i ws (rng (c + i)) = Inr (batch_y_at enum rng ws batch c i)"
  by (simp add: get_target_radius[OF assms] batch_y_at_def)

lemma take_drop_append_prefix:
  assumes "k * B + B \<le> n" "n \<le> length xs"
  shows "take B (drop (k * B) (take n xs @ tail)) = take B (drop (k * B) xs)"
  using assms by (simp add: drop_take)

lemma batch_xy_pairs:
  assumes "1 \<le> ws" "j < length (fst (batch_xy enum rng ws batch c))"
  shows "\<exists>i p. i < length batch \<and> p < length batch \<and> p \<noteq> i \<and> \<bar>int p - int i\<bar> \<le> ws \<and>
           fst (batch_xy enum rng ws batch c) ! j = batch ! i \<and>
           snd (batch_xy enum rng ws batch c) ! j = batch ! p"
proof -
  let ?x = "fst (batch_xy enum rng ws batch c)" and ?y = "snd (batch_xy enum rng ws batch c)"
  have "j < length (zip ?x ?y)" using assms(2) batch_xy_length[of enum rng ws batch c] by simp
  then have "zip ?x ?y ! j \<in> set (zip ?x ?y)" by (rule nth_mem)
  moreover have "zip ?x ?y ! j = (?x ! j, ?y ! j)"
    using assms(2) batch_xy_length[of enum rng ws batch c] by simp
  ultimately have "(?x ! j, ?y ! j) \<in>
      set (concat (map (\<lambda>i. map (Pair (batch ! i)) (batch_y_at enum rng ws batch c i)) [0 ..< length batch]))"
    unfolding batch_xy_zip by simp
  then obtain i where i: "i < length batch" "?x ! j = batch ! i"
      "?y ! j \<in> set (batch_y_at enum rng ws batch c i)"
    by auto
  from i(3) obtain p where p: "?y ! j = batch ! p" "p < length batch" "p \<noteq> i"
      "\<bar>int p - int i\<bar> \<le> radius ws (rng (c + i))"
    unfolding batch_y_at_props(2)[OF assms(1)] by blast
  have "\<bar>int p - int i\<bar> \<le> ws" using p(4) radius_range[OF assms(1), of "rng (c + i)"] by linarith
  with i p show ?thesis by blast
qed

text \<open>
  Outside these conditions nothing is yielded: a batch size of zero raises at once, a
  negative one gives an empty range, and a window size at which the draw raises ends
  the generator inside its first batch.
\<close>

lemma get_target_invalid:
  assumes "\<not> (1 \<le> ws \<and> ws < 2 ^ 63)"
  shows "get_target enum words idx ws r = Inl ValueError"
  using assms by (auto simp: get_target_def randint_def)

lemma batch_loop_invalid:
  assumes "\<not> (1 \<le> ws \<and> ws < 2 ^ 63)"
  shows "batch_loop enum rng batch ws (i # is) c xy = Inl ValueError"
  by (cases xy) (simp add: get_target_invalid[OF assms])

lemma length_py_slice_prefix:
  assumes "0 \<le> L" "L \<le> int (length xs)"
  shows "int (length (py_slice xs 0 L)) = L"
proof -
  have n: "nat L \<le> length xs" using assms by linarith
  have "slice_bound (length xs) 0 = 0" by (simp add: slice_bound_def)
  moreover have "slice_bound (length xs) L = nat L"
    using assms(1) n by (simp add: slice_bound_def min_absorb1)
  ultimately have "py_slice xs 0 L = take (nat L) xs" by (simp add: py_slice_def)
  then show ?thesis using n assms(1) by (simp add: min_absorb2)
qed

lemma get_batches_negative:
  assumes "B < 0"
  shows "get_batches enum rng words B ws = Inr []"
proof -
  let ?N = "int (length words)"
  let ?m = "?N div (- B)"
  have m: "0 \<le> ?m" using assms by (simp add: pos_imp_zdiv_nonneg_iff)
  have q: "int_truediv ?N B = Inr (- ?m)"
    using assms by (cases "length words = 0") (simp_all add: int_truediv_def)
  have L: "- ?m * B = ?m * (- B)" by simp
  have "0 \<le> - B" using assms by simp
  then have L0: "0 \<le> ?m * (- B)" by (rule mult_nonneg_nonneg[OF m])
  have "0 \<le> ?N mod (- B)" using assms by simp
  moreover have "?m * (- B) + ?N mod (- B) = ?N" by (rule div_mult_mod_eq)
  ultimately have LN: "?m * (- B) \<le> ?N" by linarith
  have len: "int (length (py_slice words 0 (?m * (- B)))) = ?m * (- B)"
    by (rule length_py_slice_prefix[OF L0 LN])
  have "(0 - ?m * (- B) - B - 1) div (- B) = ((- B - 1) + (- ?m) * (- B)) div (- B)"
    by (simp add: algebra_simps)
  also have "\<dots> = - ?m + (- B - 1) div (- B)"
    by (rule div_mult_self1) (use assms in simp)
  also have "\<dots> = - ?m"
  proof -
    have "(- B - 1) div (- B) = 0" using assms by (intro div_pos_pos_trivial) simp_all
    then show ?thesis by simp
  qed
  finally have cnt: "(0 - ?m * (- B) - B - 1) div (- B) = - ?m" .
  have "py_range 0 (?m * (- B)) B = []"
    using assms m unfolding py_range_def cnt by simp
  then show ?thesis
    unfolding get_batches_def q sum.case Let_def L len by simp
qed

lemma get_batches_invalid_window:
  assumes "0 < B" "\<not> (1 \<le> ws \<and> ws < 2 ^ 63)" "B \<le> length words"
  shows "get_batches enum rng words (int B) ws = Inl ValueError"
proof -
  let ?n = "length words div B"
  let ?xs = "take (?n * B) words"
  have n: "0 < ?n" using assms(1,3) by (simp add: div_greater_zero_iff)
  have le: "?n * B \<le> length words" by simp
  have sl: "py_slice words 0 (int ?n * int B) = ?xs"
    using py_slice_take_drop[of words 0 "?n * B"] by simp
  have len: "length ?xs = ?n * B" using le by simp
  have upt: "[0 ..< ?n] = 0 # [Suc 0 ..< ?n]" using n by (simp add: upt_conv_Cons)
  have "B \<le> ?n * B" using n by simp
  then have blen: "length (take B ?xs) = B" using assms(3) by simp
  have b0: "py_slice ?xs 0 (0 + int B) = take B ?xs"
    using py_slice_take_drop[of ?xs 0 B] by simp
  have uptB: "[0 ..< B] = 0 # [Suc 0 ..< B]" using assms(1) by (simp add: upt_conv_Cons)
  have "batches_loop enum rng ?xs (int B) ws (map (\<lambda>k. int k * int B) [0 ..< ?n]) 0 = Inl ValueError"
    unfolding upt list.map
    by (simp add: b0[simplified] blen[simplified] Let_def uptB get_target_invalid[OF assms(2)]
        del: upt_Suc)
  then show ?thesis
    unfolding get_batches_def int_truediv_nat[OF assms(1)] sum.case Let_def sl len
      py_range_batches[OF assms(1)] by simp
qed

lemma get_batches_nothing_elsewhere:
  assumes "\<not> (0 < B \<and> 1 \<le> ws \<and> ws < 2 ^ 63)"
    and "get_batches enum rng words B ws = Inr bs"
  shows "bs = []"
proof -
  consider "B = 0" | "B < 0" | "0 < B" "\<not> (1 \<le> ws \<and> ws < 2 ^ 63)"
    using assms(1) by fastforce
  then show ?thesis
  proof cases
    case 1
    then show ?thesis using assms(2) by (simp add: get_batches_def int_truediv_def)
  next
    case 2
    then show ?thesis using assms(2) get_batches_negative[of B enum rng words ws] by simp
  next
    case 3
    then have nB: "0 < nat B" and B: "int (nat B) = B" by simp_all
    show ?thesis
    proof (cases "nat B \<le> length words")
      case True
      from get_batches_invalid_window[OF nB 3(2) True, of enum rng] assms(2) B
      show ?thesis by simp
    next
      case False
      then have "length words < nat B" by simp
      from get_batches_small[OF this, of enum rng ws] assms(2) B show ?thesis by simp
    qed
  qed
qed

section \<open>Claims about the batch generator\<close>

text \<open>
  C7. Every batch yielded by \<open>get_batches\<close> is a pair \<open>(x, y)\<close> of flat lists of equal
  length. For a batch size \<open>B\<close> of at least one and a window size \<open>C\<close> at which the draw
  of the radius does not raise, \<open>1 \<le> C < 2 ^ 63\<close> (elsewhere no batch is yielded, by
  \<open>get_batches_nothing_elsewhere\<close>), the
  generator returns, and in its \<open>k\<close>-th batch \<open>x\<close> is the concatenation, over the
  positions \<open>i = 0, ..., B - 1\<close> of the batch in order, of the center token
  \<open>batch ! i\<close> repeated once per element of the list that \<open>get_target\<close> returned for
  \<open>i\<close>, \<open>y\<close> is the concatenation of these lists, and the pairs \<open>zip x y\<close> are, position
  by position, each center with each of its contexts.
\<close>

theorem get_batches_aligned:
  assumes "0 < B" and "1 \<le> window_size \<and> window_size < 2 ^ 63"
  shows "\<exists>bs. get_batches enum rng words (int B) window_size = Inr bs \<and>
           (\<forall>k < length bs.
              let batch = take B (drop (k * B) words);
                  x = fst (bs ! k); y = snd (bs ! k);
                  batch_y = batch_y_at enum rng window_size batch (k * B)
              in (\<forall>i < B. get_target enum batch i window_size (rng (k * B + i)) = Inr (batch_y i)) \<and>
                 length x = length y \<and>
                 x = concat (map (\<lambda>i. replicate (length (batch_y i)) (batch ! i)) [0 ..< B]) \<and>
                 y = concat (map batch_y [0 ..< B]) \<and>
                 zip x y = concat (map (\<lambda>i. map (Pair (batch ! i)) (batch_y i)) [0 ..< B]))"
  (is "\<exists>bs. ?Q bs")
proof -
  let ?bs = "map (\<lambda>k. batch_xy enum rng window_size (take B (drop (k * B) words)) (k * B))
               [0 ..< length words div B]"
  have Q: "?Q ?bs"
    unfolding Let_def
  proof (intro conjI allI impI, goal_cases)
    case 1
    show ?case by (rule get_batches_char[OF assms])
  next
    case (2 k i)
    show ?case by (rule get_target_batch_y_at[OF assms(2)])
  next
    case (3 k)
    then have k: "k < length words div B" by simp
    show ?case unfolding batches_nth[OF k] by (rule batch_xy_length)
  next
    case (4 k)
    then have k: "k < length words div B" by simp
    show ?case unfolding batches_nth[OF k] by (rule batch_xy_full(1)[OF batch_full(1)[OF k]])
  next
    case (5 k)
    then have k: "k < length words div B" by simp
    show ?case unfolding batches_nth[OF k] by (rule batch_xy_full(2)[OF batch_full(1)[OF k]])
  next
    case (6 k)
    then have k: "k < length words div B" by simp
    show ?case unfolding batches_nth[OF k] by (rule batch_xy_full(3)[OF batch_full(1)[OF k]])
  qed
  show ?thesis by (rule exI[where x = ?bs]) (rule Q)
qed

theorem get_batches_aligned_witness:
  "0 < (2::nat) \<and> ((1::int) \<le> 1 \<and> (1::int) < 2 ^ 63) \<and>
   (\<exists>bs. get_batches id id [1, 2, 3, 4 :: int] (int 2) 1 = Inr bs \<and>
           (\<forall>k < length bs.
              let batch = take 2 (drop (k * 2) [1, 2, 3, 4 :: int]);
                  x = fst (bs ! k); y = snd (bs ! k);
                  batch_y = batch_y_at id id 1 batch (k * 2)
              in (\<forall>i < 2. get_target id batch i 1 (id (k * 2 + i)) = Inr (batch_y i)) \<and>
                 length x = length y \<and>
                 x = concat (map (\<lambda>i. replicate (length (batch_y i)) (batch ! i)) [0 ..< 2]) \<and>
                 y = concat (map batch_y [0 ..< 2]) \<and>
                 zip x y = concat (map (\<lambda>i. map (Pair (batch ! i)) (batch_y i)) [0 ..< 2])))"
  (is "?A \<and> ?B \<and> ?C")
proof -
  have h1: ?A by simp
  have h2: ?B by simp
  show ?thesis by (rule conjI[OF h1 conjI[OF h2 get_batches_aligned[OF h1 h2]]])
qed

lemma get_batches_tail:
  assumes "0 < B" "1 \<le> ws \<and> ws < 2 ^ 63" "length tail < B"
  shows "get_batches enum rng (take (length words div B * B) words @ tail) (int B) ws =
         get_batches enum rng words (int B) ws"
proof -
  let ?n = "length words div B"
  let ?ys = "take (?n * B) words @ tail"
  have le: "?n * B \<le> length words" by simp
  have len: "length ?ys = length tail + ?n * B" using le by simp
  have n: "length ?ys div B = ?n" unfolding len using assms(1,3) by simp
  have td: "take B (drop (k * B) ?ys) = take B (drop (k * B) words)" if "k < ?n" for k
  proof -
    have "Suc k * B \<le> ?n * B" using that by (simp add: Suc_leI mult_le_mono1 del: mult_Suc)
    then have "k * B + B \<le> ?n * B" by simp
    then show ?thesis using le by (rule take_drop_append_prefix)
  qed
  have "map (\<lambda>k. batch_xy enum rng ws (take B (drop (k * B) ?ys)) (k * B)) [0 ..< ?n] =
        map (\<lambda>k. batch_xy enum rng ws (take B (drop (k * B) words)) (k * B)) [0 ..< ?n]"
    using td by simp
  then show ?thesis
    unfolding get_batches_char[OF assms(1,2)] n by simp
qed

text \<open>
  C10. For a sequence of length \<open>N\<close>, a batch size \<open>B\<close> of at least one and a window size
  \<open>C\<close> at which the draw of the radius does not raise, \<open>1 \<le> C < 2 ^ 63\<close>,
  \<open>get_batches\<close> returns and yields exactly \<open>N div B\<close> batches; the
  \<open>k\<close>-th batch is what the inner loop computes from the \<open>B\<close> consecutive tokens at the
  positions \<open>k * B, ..., k * B + B - 1\<close>; the tokens after position \<open>(N div B) * B\<close> have
  no influence on the result, whatever they are; and when \<open>N < B\<close> no batch is yielded and
  no exception is raised, for every window size.
\<close>

theorem get_batches_count:
  assumes "0 < B" and "1 \<le> window_size \<and> window_size < 2 ^ 63"
  shows "\<exists>bs. get_batches enum rng words (int B) window_size = Inr bs \<and>
           length bs = length words div B \<and>
           (\<forall>k < length bs.
              length (take B (drop (k * B) words)) = B \<and>
              batch_loop enum rng (take B (drop (k * B) words)) window_size [0 ..< B] (k * B) ([], [])
                = Inr (bs ! k, k * B + B)) \<and>
           (\<forall>tail. length tail < B \<longrightarrow>
              get_batches enum rng (take (length words div B * B) words @ tail) (int B) window_size
                = Inr bs) \<and>
           (length words < B \<longrightarrow>
              bs = [] \<and> (\<forall>w. get_batches enum rng words (int B) w = Inr []))"
  (is "\<exists>bs. ?Q bs")
proof -
  let ?bs = "map (\<lambda>k. batch_xy enum rng window_size (take B (drop (k * B) words)) (k * B))
               [0 ..< length words div B]"
  have char: "get_batches enum rng words (int B) window_size = Inr ?bs"
    by (rule get_batches_char[OF assms])
  have Q: "?Q ?bs"
  proof (intro conjI allI impI, goal_cases)
    case 1
    show ?case by (rule char)
  next
    case 2
    show ?case by simp
  next
    case (3 k)
    then have k: "k < length words div B" by simp
    show ?case by (rule batch_full(1)[OF k])
  next
    case (4 k)
    then have k: "k < length words div B" by simp
    have len: "length (take B (drop (k * B) words)) = B" by (rule batch_full(1)[OF k])
    show ?case
      unfolding batches_nth[OF k]
      using batch_loop_batch_xy[OF assms(2), of enum rng "take B (drop (k * B) words)" "k * B"]
      unfolding len .
  next
    case (5 tail)
    show ?case unfolding get_batches_tail[OF assms 5] by (rule char)
  next
    case 6
    then show ?case by simp
  next
    case (7 w)
    then show ?case by (rule get_batches_small)
  qed
  show ?thesis by (rule exI[where x = ?bs]) (rule Q)
qed

theorem get_batches_count_witness:
  "0 < (3::nat) \<and> ((1::int) \<le> 2 \<and> (2::int) < 2 ^ 63) \<and>
   (\<exists>bs. get_batches id id [1, 2, 3, 4, 5, 6, 7 :: int] (int 3) 2 = Inr bs \<and>
           length bs = length [1, 2, 3, 4, 5, 6, 7 :: int] div 3 \<and>
           (\<forall>k < length bs.
              length (take 3 (drop (k * 3) [1, 2, 3, 4, 5, 6, 7 :: int])) = 3 \<and>
              batch_loop id id (take 3 (drop (k * 3) [1, 2, 3, 4, 5, 6, 7 :: int])) 2 [0 ..< 3] (k * 3) ([], [])
                = Inr (bs ! k, k * 3 + 3)) \<and>
           (\<forall>tail. length tail < 3 \<longrightarrow>
              get_batches id id (take (length [1, 2, 3, 4, 5, 6, 7 :: int] div 3 * 3) [1, 2, 3, 4, 5, 6, 7 :: int] @ tail) (int 3) 2
                = Inr bs) \<and>
           (length [1, 2, 3, 4, 5, 6, 7 :: int] < 3 \<longrightarrow>
              bs = [] \<and> (\<forall>w. get_batches id id [1, 2, 3, 4, 5, 6, 7 :: int] (int 3) w = Inr []))) \<and>
   (\<exists>bs. get_batches id id [8, 9 :: int] (int 3) 2 = Inr bs \<and>
           length bs = length [8, 9 :: int] div 3 \<and>
           (\<forall>k < length bs.
              length (take 3 (drop (k * 3) [8, 9 :: int])) = 3 \<and>
              batch_loop id id (take 3 (drop (k * 3) [8, 9 :: int])) 2 [0 ..< 3] (k * 3) ([], [])
                = Inr (bs ! k, k * 3 + 3)) \<and>
           (\<forall>tail. length tail < 3 \<longrightarrow>
              get_batches id id (take (length [8, 9 :: int] div 3 * 3) [8, 9 :: int] @ tail) (int 3) 2
                = Inr bs) \<and>
           (length [8, 9 :: int] < 3 \<longrightarrow>
              bs = [] \<and> (\<forall>w. get_batches id id [8, 9 :: int] (int 3) w = Inr [])))"
  (is "?A \<and> ?B \<and> ?C \<and> ?D")
proof -
  have h1: ?A by simp
  have h2: ?B by simp
  show ?thesis
    by (rule conjI[OF h1 conjI[OF h2 conjI[OF get_batches_count[OF h1 h2] get_batches_count[OF h1 h2]]]])
qed

text \<open>
  C1, as stated, fails: \<open>get_target\<close> leaves out the position of the center, not the
  tokens equal to it. On the sequence \<open>[5, 5]\<close> with a batch size of 2 and a window size
  of 1, both emitted pairs are \<open>(5, 5)\<close>.
\<close>

theorem get_batches_self_pair:
  "get_batches id id [5, 5 :: int] 2 1 = Inr [([5, 5], [5, 5])]"
  by code_simp

text \<open>
  C1, amended. For a batch size \<open>B\<close> of at least one and a window size \<open>C\<close> at which the
  draw of the radius does not raise, \<open>1 \<le> C < 2 ^ 63\<close> (elsewhere no pair is emitted,
  by \<open>get_batches_nothing_elsewhere\<close>),
  every emitted pair has its center at a position \<open>i\<close> of the batch and its context at
  a position \<open>p\<close> of the same batch with \<open>p \<noteq> i\<close>, no further than the window size
  from \<open>i\<close>. So in a batch whose tokens are pairwise distinct no pair has its center
  equal to its context.
\<close>

theorem get_batches_context_position:
  assumes "0 < B" and "1 \<le> window_size \<and> window_size < 2 ^ 63"
  shows "\<exists>bs. get_batches enum rng words (int B) window_size = Inr bs \<and>
           (\<forall>k < length bs. \<forall>j < length (fst (bs ! k)).
              \<exists>i p. i < B \<and> p < B \<and> p \<noteq> i \<and> \<bar>int p - int i\<bar> \<le> window_size \<and>
                    fst (bs ! k) ! j = words ! (k * B + i) \<and>
                    snd (bs ! k) ! j = words ! (k * B + p)) \<and>
           (\<forall>k < length bs. distinct (take B (drop (k * B) words)) \<longrightarrow>
              (\<forall>j < length (fst (bs ! k)). fst (bs ! k) ! j \<noteq> snd (bs ! k) ! j))"
  (is "\<exists>bs. ?Q bs")
proof -
  let ?bs = "map (\<lambda>k. batch_xy enum rng window_size (take B (drop (k * B) words)) (k * B))
               [0 ..< length words div B]"
  have pairs: "\<exists>i p. i < B \<and> p < B \<and> p \<noteq> i \<and> \<bar>int p - int i\<bar> \<le> window_size \<and>
                    fst (?bs ! k) ! j = take B (drop (k * B) words) ! i \<and>
                    snd (?bs ! k) ! j = take B (drop (k * B) words) ! p"
    if "k < length ?bs" "j < length (fst (?bs ! k))" for k j
  proof -
    from that(1) have k: "k < length words div B" by simp
    have len: "length (take B (drop (k * B) words)) = B" by (rule batch_full(1)[OF k])
    from that(2) have j: "j < length (fst (batch_xy enum rng window_size (take B (drop (k * B) words)) (k * B)))"
      unfolding batches_nth[OF k] .
    show ?thesis
      unfolding batches_nth[OF k]
      using batch_xy_pairs[OF assms(2)[THEN conjunct1] j] unfolding len .
  qed
  have Q: "?Q ?bs"
  proof (intro conjI allI impI, goal_cases)
    case 1
    show ?case by (rule get_batches_char[OF assms])
  next
    case (2 k j)
    then have k: "k < length words div B" by simp
    from pairs[OF 2] obtain i p where ip: "i < B" "p < B" "p \<noteq> i" "\<bar>int p - int i\<bar> \<le> window_size"
        "fst (?bs ! k) ! j = take B (drop (k * B) words) ! i"
        "snd (?bs ! k) ! j = take B (drop (k * B) words) ! p"
      by blast
    have "fst (?bs ! k) ! j = words ! (k * B + i)" "snd (?bs ! k) ! j = words ! (k * B + p)"
      using ip(5,6) batch_full(2)[OF k ip(1)] batch_full(2)[OF k ip(2)] by simp_all
    with ip(1-4) show ?case by blast
  next
    case (3 k j)
    then have k: "k < length words div B" by simp
    have len: "length (take B (drop (k * B) words)) = B" by (rule batch_full(1)[OF k])
    from pairs[OF 3(1,3)] obtain i p where ip: "i < B" "p < B" "p \<noteq> i"
        "fst (?bs ! k) ! j = take B (drop (k * B) words) ! i"
        "snd (?bs ! k) ! j = take B (drop (k * B) words) ! p"
      by blast
    have "take B (drop (k * B) words) ! i \<noteq> take B (drop (k * B) words) ! p"
    proof -
      have "i < length (take B (drop (k * B) words))" "p < length (take B (drop (k * B) words))"
        unfolding len using ip(1,2) by blast+
      from nth_eq_iff_index_eq[OF 3(2) this] ip(3) show ?thesis by blast
    qed
    then show ?case unfolding ip(4,5) .
  qed
  show ?thesis by (rule exI[where x = ?bs]) (rule Q)
qed

theorem get_batches_context_position_witness:
  "0 < (2::nat) \<and> ((1::int) \<le> 1 \<and> (1::int) < 2 ^ 63) \<and>
   (\<exists>bs. get_batches id id [1, 2, 3, 4 :: int] (int 2) 1 = Inr bs \<and>
           (\<forall>k < length bs. \<forall>j < length (fst (bs ! k)).
              \<exists>i p. i < 2 \<and> p < 2 \<and> p \<noteq> i \<and> \<bar>int p - int i\<bar> \<le> 1 \<and>
                    fst (bs ! k) ! j = [1, 2, 3, 4 :: int] ! (k * 2 + i) \<and>
                    snd (bs ! k) ! j = [1, 2, 3, 4 :: int] ! (k * 2 + p)) \<and>
           (\<forall>k < length bs. distinct (take 2 (drop (k * 2) [1, 2, 3, 4 :: int])) \<longrightarrow>
              (\<forall>j < length (fst (bs ! k)). fst (bs ! k) ! j \<noteq> snd (bs ! k) ! j)))"
  (is "?A \<and> ?B \<and> ?C")
proof -
  have h1: ?A by simp
  have h2: ?B by simp
  show ?thesis by (rule conjI[OF h1 conjI[OF h2 get_batches_context_position[OF h1 h2]]])
qed

lemma batch_positions:
  assumes "k < length words div B" "i < B"
  shows "{take B (drop (k * B) words) ! p | p. p < B \<and> p \<noteq> i \<and> \<bar>int p - int i\<bar> \<le> R} =
         {words ! q | q. k * B \<le> q \<and> q < k * B + B \<and> q \<noteq> k * B + i \<and> \<bar>int q - int (k * B + i)\<bar> \<le> R}"
  (is "?L = ?R")
proof (intro set_eqI iffI)
  fix x assume "x \<in> ?L"
  then obtain p where p: "x = take B (drop (k * B) words) ! p" "p < B" "p \<noteq> i" "\<bar>int p - int i\<bar> \<le> R"
    by blast
  have "x = words ! (k * B + p)" using p(1) batch_full(2)[OF assms(1) p(2)] by simp
  moreover have "\<bar>int (k * B + p) - int (k * B + i)\<bar> \<le> R" using p(4) by simp
  ultimately show "x \<in> ?R" using p(2,3) by (intro CollectI exI[of _ "k * B + p"]) simp
next
  fix x assume "x \<in> ?R"
  then obtain q where q: "x = words ! q" "k * B \<le> q" "q < k * B + B" "q \<noteq> k * B + i"
      "\<bar>int q - int (k * B + i)\<bar> \<le> R"
    by blast
  define p where "p = q - k * B"
  have qp: "q = k * B + p" using q(2) by (simp add: p_def)
  have pB: "p < B" using q(3) qp by simp
  have "x = take B (drop (k * B) words) ! p" using q(1) batch_full(2)[OF assms(1) pB] qp by simp
  moreover have "p \<noteq> i" using q(4) qp by simp
  moreover have "\<bar>int p - int i\<bar> \<le> R" using q(5) qp by simp
  ultimately show "x \<in> ?L" using pB by blast
qed

text \<open>
  C3, as stated, fails for the generator: \<open>get_batches\<close> hands \<open>get_target\<close> the
  current batch and the position inside it, so a window is clipped at the boundaries of
  the batch and not only at those of the sequence. On \<open>[1, 2, 3, 4]\<close> with a batch size
  of 2 and a window size of 1 (so every radius is 1), the center 2 at position 1 of the
  sequence gets the single context 1, while the tokens within distance 1 of position 1
  in the sequence are 1 and 3.
\<close>

theorem get_batches_window_clipped:
  "get_batches id id [1, 2, 3, 4 :: int] 2 1 = Inr [([1, 2], [2, 1]), ([3, 4], [4, 3])] \<and>
   get_target id [1, 2, 3, 4 :: int] 1 1 0 = Inr [1, 3]"
  by code_simp

text \<open>
  C3, amended. For a window size \<open>C\<close> with \<open>1 \<le> C < 2 ^ 63\<close>, \<open>get_target\<close> on any
  list and any position \<open>idx\<close> draws a radius \<open>R\<close> in \<open>[1, C]\<close> and returns, without
  repetition, exactly the tokens of that list at the positions \<open>j \<noteq> idx\<close> with
  \<open>\<bar>j - idx\<bar> \<le> R\<close>. In \<open>get_batches\<close> that list is the current batch: the contexts
  emitted for the center at position \<open>k * B + i\<close> of the sequence are, once each, the
  tokens at the positions \<open>q \<noteq> k * B + i\<close> within \<open>R\<close> of it that lie in the same
  batch, \<open>k * B \<le> q < k * B + B\<close>, and no others: the list \<open>y\<close> of the batch is the
  concatenation of these target lists, and the emitted pairs are each center with each
  element of its target list.
\<close>

theorem get_target_window:
  assumes "0 < B" and "1 \<le> window_size \<and> window_size < 2 ^ 63"
  shows "(\<exists>tg. get_target enum xs idx window_size r = Inr tg \<and>
               1 \<le> radius window_size r \<and> radius window_size r \<le> window_size \<and>
               distinct tg \<and>
               set tg = {xs ! j | j. j < length xs \<and> j \<noteq> idx \<and>
                           \<bar>int j - int idx\<bar> \<le> radius window_size r}) \<and>
         (\<exists>bs. get_batches enum rng words (int B) window_size = Inr bs \<and>
            length bs = length words div B \<and>
            (\<forall>k < length bs. \<exists>tg.
               (\<forall>i < B.
                  get_target enum (take B (drop (k * B) words)) i window_size (rng (k * B + i))
                    = Inr (tg i) \<and>
                  distinct (tg i) \<and>
                  set (tg i) = {words ! q | q. k * B \<le> q \<and> q < k * B + B \<and> q \<noteq> k * B + i \<and>
                                  \<bar>int q - int (k * B + i)\<bar> \<le> radius window_size (rng (k * B + i))}) \<and>
               snd (bs ! k) = concat (map tg [0 ..< B]) \<and>
               zip (fst (bs ! k)) (snd (bs ! k))
                 = concat (map (\<lambda>i. map (Pair (words ! (k * B + i))) (tg i)) [0 ..< B])))"
  (is "?P1 \<and> (\<exists>bs. ?Q bs)")
proof (rule conjI)
  note w1 = assms(2)[THEN conjunct1]
  have r0: "0 \<le> radius window_size r" using radius_range[OF w1, of r] by simp
  have "get_target enum xs idx window_size r = Inr (window enum xs idx (radius window_size r))"
    by (rule get_target_radius[OF assms(2)])
  moreover have "distinct (window enum xs idx (radius window_size r))"
    by (simp add: window_def Let_def distinct_list_of_set)
  ultimately show ?P1
    using radius_range[OF w1, of r] set_window[OF r0, of enum xs idx]
    by (intro exI[where x = "window enum xs idx (radius window_size r)"] conjI) simp_all
next
  note w1 = assms(2)[THEN conjunct1]
  let ?bs = "map (\<lambda>k. batch_xy enum rng window_size (take B (drop (k * B) words)) (k * B))
               [0 ..< length words div B]"
  have each: "\<exists>tg.
               (\<forall>i < B.
                  get_target enum (take B (drop (k * B) words)) i window_size (rng (k * B + i))
                    = Inr (tg i) \<and>
                  distinct (tg i) \<and>
                  set (tg i) = {words ! q | q. k * B \<le> q \<and> q < k * B + B \<and> q \<noteq> k * B + i \<and>
                                  \<bar>int q - int (k * B + i)\<bar> \<le> radius window_size (rng (k * B + i))}) \<and>
               snd (?bs ! k) = concat (map tg [0 ..< B]) \<and>
               zip (fst (?bs ! k)) (snd (?bs ! k))
                 = concat (map (\<lambda>i. map (Pair (words ! (k * B + i))) (tg i)) [0 ..< B])"
    if kk: "k < length ?bs" for k
  proof -
    from kk have k: "k < length words div B" by simp
    let ?batch = "take B (drop (k * B) words)"
    let ?tg = "batch_y_at enum rng window_size ?batch (k * B)"
    have len: "length ?batch = B" by (rule batch_full(1)[OF k])
    have a: "\<forall>i < B.
                  get_target enum ?batch i window_size (rng (k * B + i)) = Inr (?tg i) \<and>
                  distinct (?tg i) \<and>
                  set (?tg i) = {words ! q | q. k * B \<le> q \<and> q < k * B + B \<and> q \<noteq> k * B + i \<and>
                                  \<bar>int q - int (k * B + i)\<bar> \<le> radius window_size (rng (k * B + i))}"
    proof (intro allI impI conjI)
      fix i assume i: "i < B"
      show "get_target enum ?batch i window_size (rng (k * B + i)) = Inr (?tg i)"
        by (rule get_target_batch_y_at[OF assms(2)])
      show "distinct (?tg i)" by (rule batch_y_at_props(1)[OF w1])
      show "set (?tg i) = {words ! q | q. k * B \<le> q \<and> q < k * B + B \<and> q \<noteq> k * B + i \<and>
                                  \<bar>int q - int (k * B + i)\<bar> \<le> radius window_size (rng (k * B + i))}"
        unfolding batch_y_at_props(2)[OF w1] len by (rule batch_positions[OF k i])
    qed
    have b: "snd (?bs ! k) = concat (map ?tg [0 ..< B])"
      unfolding batches_nth[OF k] by (rule batch_xy_full(2)[OF len])
    have "concat (map (\<lambda>i. map (Pair (?batch ! i)) (?tg i)) [0 ..< B])
        = concat (map (\<lambda>i. map (Pair (words ! (k * B + i))) (?tg i)) [0 ..< B])"
      using batch_full(2)[OF k] by (intro arg_cong[where f = concat] map_cong refl) simp
    then have c: "zip (fst (?bs ! k)) (snd (?bs ! k))
                 = concat (map (\<lambda>i. map (Pair (words ! (k * B + i))) (?tg i)) [0 ..< B])"
      unfolding batches_nth[OF k] batch_xy_full(3)[OF len] .
    show ?thesis by (rule exI[where x = ?tg]) (rule conjI[OF a conjI[OF b c]])
  qed
  have Q: "?Q ?bs"
  proof (intro conjI allI impI, goal_cases)
    case 1
    show ?case by (rule get_batches_char[OF assms])
  next
    case 2
    show ?case by simp
  next
    case (3 k)
    then show ?case by (rule each)
  qed
  show "\<exists>bs. ?Q bs" by (rule exI[where x = ?bs]) (rule Q)
qed

theorem get_target_window_witness:
  "0 < (2::nat) \<and> ((1::int) \<le> 1 \<and> (1::int) < 2 ^ 63) \<and>
   (\<exists>tg. get_target id [1, 2, 3, 4 :: int] 1 1 0 = Inr tg \<and>
               1 \<le> radius 1 0 \<and> radius 1 0 \<le> 1 \<and>
               distinct tg \<and>
               set tg = {[1, 2, 3, 4 :: int] ! j | j. j < length [1, 2, 3, 4 :: int] \<and> j \<noteq> 1 \<and>
                           \<bar>int j - int 1\<bar> \<le> radius 1 0}) \<and>
   (\<exists>bs. get_batches id id [1, 2, 3, 4 :: int] (int 2) 1 = Inr bs \<and>
            length bs = length [1, 2, 3, 4 :: int] div 2 \<and>
            (\<forall>k < length bs. \<exists>tg.
               (\<forall>i < 2.
                  get_target id (take 2 (drop (k * 2) [1, 2, 3, 4 :: int])) i 1 (id (k * 2 + i))
                    = Inr (tg i) \<and>
                  distinct (tg i) \<and>
                  set (tg i) = {[1, 2, 3, 4 :: int] ! q | q. k * 2 \<le> q \<and> q < k * 2 + 2 \<and> q \<noteq> k * 2 + i \<and>
                                  \<bar>int q - int (k * 2 + i)\<bar> \<le> radius 1 (id (k * 2 + i))}) \<and>
               snd (bs ! k) = concat (map tg [0 ..< 2]) \<and>
               zip (fst (bs ! k)) (snd (bs ! k))
                 = concat (map (\<lambda>i. map (Pair ([1, 2, 3, 4 :: int] ! (k * 2 + i))) (tg i)) [0 ..< 2])))"
  (is "?A \<and> ?B \<and> ?C")
proof -
  have h1: ?A by simp
  have h2: ?B by simp
  show ?thesis by (rule conjI[OF h1 conjI[OF h2 get_target_window[OF h1 h2]]])
qed

section \<open>The tables of the subsampler\<close>

lemma map_of_counter_add:
  "map_of (counter_add w kvs) k =
     (if k = w then Some (case map_of kvs w of None \<Rightarrow> 1 | Some c \<Rightarrow> Suc c) else map_of kvs k)"
  by (induction kvs) auto

lemma map_of_fold_counter_add:
  "map_of (fold counter_add xs kvs) k =
     (case map_of kvs k of
        None \<Rightarrow> if k \<in> set xs then Some (count_list xs k) else None
      | Some c \<Rightarrow> Some (count_list xs k + c))"
  by (induction xs arbitrary: kvs) (auto simp: map_of_counter_add split: option.splits)

lemma map_of_Counter:
  "map_of (Counter words) w = (if w \<in> set words then Some (count_list words w) else None)"
  by (simp add: Counter_def map_of_fold_counter_add)

lemma keys_Counter: "set (map fst (Counter words)) = set words"
proof -
  have "set (map fst (Counter words)) = dom (map_of (Counter words))"
    by (simp add: dom_map_of_conv_image_fst)
  also have "\<dots> = set words"
    by (auto simp: map_of_Counter dom_def)
  finally show ?thesis .
qed

lemma count_list_pos: "w \<in> set words \<Longrightarrow> 0 < count_list words w"
  by (induction words) auto

lemma exact_keeps_sign: "rounding_keeps_sign exact"
  by (simp add: rounding_keeps_sign_def exact_def)

lemma exact_monotone: "rounding_monotone exact"
  by (simp add: rounding_monotone_def exact_def frac_le)

lemma freqs_loop_char:
  assumes "0 < n"
  shows "freqs_loop ops items n = Inr (map (\<lambda>kc. (fst kc, rdiv ops (real (snd kc)) (real n))) items)"
  using assms by (induction items) (auto simp: py_truediv_def)

lemma subsampling_freqs_char:
  "subsampling_freqs ops words =
     Inr (map (\<lambda>kc. (fst kc, rdiv ops (real (snd kc)) (real (length words)))) (Counter words))"
proof (cases "words = []")
  case True
  then show ?thesis by (simp add: subsampling_freqs_def Counter_def)
next
  case False
  then show ?thesis by (simp add: subsampling_freqs_def freqs_loop_char)
qed

lemma map_of_map_snd:
  "map_of (map (\<lambda>kc. (fst kc, g (snd kc))) items) k = map_option g (map_of items k)"
  by (induction items) auto

lemma map_of_freqs:
  "map_of (map (\<lambda>kc. (fst kc, rdiv ops (real (snd kc)) (real (length words)))) (Counter words)) w =
     (if w \<in> set words then Some (frequency ops words w) else None)"
  using map_of_map_snd[where g = "\<lambda>c. rdiv ops (real c) (real (length words))"
      and items = "Counter words" and k = w]
  by (simp add: map_of_Counter frequency_def)

lemma frequency_pos:
  assumes "rounding_keeps_sign ops" "w \<in> set words"
  shows "0 < frequency ops words w"
proof -
  have "0 < count_list words w" by (rule count_list_pos[OF assms(2)])
  moreover have "count_list words w \<le> length words" by (rule count_le_length)
  ultimately show ?thesis
    using assms(1) unfolding rounding_keeps_sign_def frequency_def by blast
qed

lemma p_drop_loop_char:
  assumes "\<forall>w \<in> set keys. \<exists>f. map_of freqs w = Some f \<and> f \<noteq> 0"
  shows "p_drop_loop ops keys freqs t =
         Inr (map (\<lambda>w. (w, map_option (rsub ops 1) (np_sqrt ops (rdiv ops t (the (map_of freqs w)))))) keys)"
  using assms by (induction keys) (auto simp: lookup_def py_truediv_def)

lemma map_of_map_key:
  "map_of (map (\<lambda>w. (w, g w)) keys) k = (if k \<in> set keys then Some (g k) else None)"
  by (induction keys) auto

lemma subsampling_p_drop_char:
  assumes "rounding_keeps_sign ops"
  shows "subsampling_p_drop ops words t =
         Inr (map (\<lambda>w. (w, p_drop_value ops words t w)) (map fst (Counter words)))"
proof -
  let ?freqs = "map (\<lambda>kc. (fst kc, rdiv ops (real (snd kc)) (real (length words)))) (Counter words)"
  have ok: "\<forall>w \<in> set (map fst (Counter words)). \<exists>f. map_of ?freqs w = Some f \<and> f \<noteq> 0"
    unfolding keys_Counter map_of_freqs using frequency_pos[OF assms, of _ words] by fastforce
  have "map (\<lambda>w. (w, map_option (rsub ops 1) (np_sqrt ops (rdiv ops t (the (map_of ?freqs w))))))
          (map fst (Counter words))
      = map (\<lambda>w. (w, p_drop_value ops words t w)) (map fst (Counter words))"
    unfolding map_of_freqs p_drop_value_def
    by (rule map_cong[OF refl]) (simp add: keys_Counter[simplified])
  then show ?thesis
    unfolding subsampling_p_drop_def subsampling_freqs_char sum.case p_drop_loop_char[OF ok] by simp
qed

lemma map_of_p_drop:
  "map_of (map (\<lambda>w. (w, p_drop_value ops words t w)) (map fst (Counter words))) w =
     (if w \<in> set words then Some (p_drop_value ops words t w) else None)"
  unfolding map_of_map_key keys_Counter ..

lemma keep_loop_char:
  assumes "\<forall>w \<in> set ws. \<exists>p. map_of p_drop w = Some p"
  shows "keep_loop p_drop random ws c =
         Inr (map snd (filter (\<lambda>kw. nan_less (the (map_of p_drop (snd kw))) (random (fst kw)))
                         (zip [c ..< c + length ws] ws)))"
  using assms
proof (induction ws arbitrary: c)
  case Nil
  show ?case by simp
next
  case (Cons w ws)
  have "c < c + length (w # ws)" by simp
  from upt_conv_Cons[OF this]
  have upt: "[c ..< c + length (w # ws)] = c # [Suc c ..< Suc c + length ws]" by simp
  from Cons.prems obtain p where p: "map_of p_drop w = Some p" by auto
  have IH: "keep_loop p_drop random ws (Suc c) =
         Inr (map snd (filter (\<lambda>kw. nan_less (the (map_of p_drop (snd kw))) (random (fst kw)))
                         (zip [Suc c ..< Suc c + length ws] ws)))"
    by (rule Cons.IH) (use Cons.prems in simp)
  show ?case unfolding upt by (simp add: IH lookup_def p)
qed

lemma subsampling_char:
  assumes "rounding_keeps_sign ops"
  shows "subsampling ops words t random =
     Inr (map snd (filter (\<lambda>kw. nan_less (p_drop_value ops words t (snd kw)) (random (fst kw)))
                     (zip [0 ..< length words] words)))"
proof -
  let ?tbl = "map (\<lambda>w. (w, p_drop_value ops words t w)) (map fst (Counter words))"
  have ok: "\<forall>w \<in> set words. \<exists>p. map_of ?tbl w = Some p"
    unfolding map_of_p_drop by simp
  have "filter (\<lambda>kw. nan_less (the (map_of ?tbl (snd kw))) (random (fst kw))) (zip [0 ..< 0 + length words] words)
      = filter (\<lambda>kw. nan_less (p_drop_value ops words t (snd kw)) (random (fst kw))) (zip [0 ..< length words] words)"
    unfolding map_of_p_drop by (rule filter_cong) (auto dest: set_zip_rightD)
  then show ?thesis
    unfolding subsampling_def subsampling_p_drop_char[OF assms] sum.case keep_loop_char[OF ok] by simp
qed

lemma p_drop_value_nonneg:
  assumes "rounding_keeps_sign ops" "0 \<le> t" "w \<in> set words"
  shows "p_drop_value ops words t w = Some (drop_probability ops words t w)"
proof -
  have "0 \<le> rdiv ops t (frequency ops words w)"
    using assms(1,2) frequency_pos[OF assms(1,3)] unfolding rounding_keeps_sign_def by blast
  then show ?thesis by (simp add: p_drop_value_def np_sqrt_def drop_probability_def)
qed

lemma lookup_Counter:
  "w \<in> set words \<Longrightarrow> lookup (Counter words) w = Inr (count_list words w)"
  by (simp add: lookup_def map_of_Counter)

lemma lookup_freqs:
  "w \<in> set words \<Longrightarrow>
   lookup (map (\<lambda>kc. (fst kc, rdiv ops (real (snd kc)) (real (length words)))) (Counter words)) w
     = Inr (frequency ops words w)"
  by (simp add: lookup_def map_of_freqs)

lemma lookup_p_drop:
  "w \<in> set words \<Longrightarrow>
   lookup (map (\<lambda>w. (w, p_drop_value ops words t w)) (map fst (Counter words))) w
     = Inr (p_drop_value ops words t w)"
  unfolding lookup_def map_of_p_drop by simp

lemma drop_probability_mono:
  assumes "rounding_keeps_sign ops" "rounding_monotone ops" "0 \<le> t" "0 < f1" "f1 \<le> f2"
  shows "rsub ops 1 (rsqrt ops (rdiv ops t f1)) \<le> rsub ops 1 (rsqrt ops (rdiv ops t f2))"
proof -
  have d: "rdiv ops t f2 \<le> rdiv ops t f1"
    using assms(2-5) unfolding rounding_monotone_def by blast
  have "0 < f2" using assms(4,5) by simp
  then have n: "0 \<le> rdiv ops t f2"
    using assms(1,3) unfolding rounding_keeps_sign_def by blast
  have "rsqrt ops (rdiv ops t f2) \<le> rsqrt ops (rdiv ops t f1)"
    using assms(2) d n unfolding rounding_monotone_def by blast
  then show ?thesis using assms(2) unfolding rounding_monotone_def by blast
qed

section \<open>Claims about the subsampler\<close>

text \<open>
  C9. For every input sequence, threshold and random source \<open>subsampling\<close> returns a
  list: no division by zero and no missing key. Every token of the input has a
  positive count in \<open>Counter words\<close>, a positive frequency in \<open>freqs\<close> (the rounded
  quotient of its count by the length) and an entry in \<open>p_drop\<close>. This holds for
  every rounding that keeps the sign, so for the floats of the program and for exact
  arithmetic.
\<close>

theorem subsampling_no_zero_division:
  assumes "rounding_keeps_sign ops"
  shows "(\<exists>out. subsampling ops words threshold random = Inr out) \<and>
   (\<exists>freqs p_drop.
      subsampling_freqs ops words = Inr freqs \<and>
      subsampling_p_drop ops words threshold = Inr p_drop \<and>
      (\<forall>w \<in> set words.
         \<exists>c f p. lookup (Counter words) w = Inr c \<and> 0 < c \<and>
                 lookup freqs w = Inr f \<and> f = rdiv ops (real c) (real (length words)) \<and> 0 < f \<and>
                 lookup p_drop w = Inr p))"
proof (rule conjI)
  show "\<exists>out. subsampling ops words threshold random = Inr out"
    unfolding subsampling_char[OF assms] by (rule exI) (rule refl)
next
  let ?freqs = "map (\<lambda>kc. (fst kc, rdiv ops (real (snd kc)) (real (length words)))) (Counter words)"
  let ?p_drop = "map (\<lambda>w. (w, p_drop_value ops words threshold w)) (map fst (Counter words))"
  have each: "\<exists>c f p. lookup (Counter words) w = Inr c \<and> 0 < c \<and>
                 lookup ?freqs w = Inr f \<and> f = rdiv ops (real c) (real (length words)) \<and> 0 < f \<and>
                 lookup ?p_drop w = Inr p" if w: "w \<in> set words" for w
  proof (intro exI conjI)
    show "lookup (Counter words) w = Inr (count_list words w)" by (rule lookup_Counter[OF w])
    show "0 < count_list words w" by (rule count_list_pos[OF w])
    show "lookup ?freqs w = Inr (frequency ops words w)" by (rule lookup_freqs[OF w])
    show "frequency ops words w = rdiv ops (real (count_list words w)) (real (length words))"
      by (simp add: frequency_def)
    show "0 < frequency ops words w" by (rule frequency_pos[OF assms w])
    show "lookup ?p_drop w = Inr (p_drop_value ops words threshold w)" by (rule lookup_p_drop[OF w])
  qed
  show "\<exists>freqs p_drop.
      subsampling_freqs ops words = Inr freqs \<and>
      subsampling_p_drop ops words threshold = Inr p_drop \<and>
      (\<forall>w \<in> set words.
         \<exists>c f p. lookup (Counter words) w = Inr c \<and> 0 < c \<and>
                 lookup freqs w = Inr f \<and> f = rdiv ops (real c) (real (length words)) \<and> 0 < f \<and>
                 lookup p_drop w = Inr p)"
    apply (rule exI[where x = ?freqs])
    apply (rule exI[where x = ?p_drop])
    apply (intro conjI ballI)
      apply (rule subsampling_freqs_char)
     apply (rule subsampling_p_drop_char[OF assms])
    apply (rule each)
    apply assumption
    done
qed

theorem subsampling_no_zero_division_witness:
  "(\<exists>out. subsampling exact [1, 2, 1 :: int] (1 / 100000) ((!) [1 / 2, 1 / 2, 1 / 2]) = Inr out) \<and>
   (\<exists>freqs p_drop.
      subsampling_freqs exact [1, 2, 1 :: int] = Inr freqs \<and>
      subsampling_p_drop exact [1, 2, 1 :: int] (1 / 100000) = Inr p_drop \<and>
      (\<forall>w \<in> set [1, 2, 1 :: int].
         \<exists>c f p. lookup (Counter [1, 2, 1 :: int]) w = Inr c \<and> 0 < c \<and>
                 lookup freqs w = Inr f \<and> f = rdiv exact (real c) (real (length [1, 2, 1 :: int])) \<and> 0 < f \<and>
                 lookup p_drop w = Inr p))"
  by (rule subsampling_no_zero_division[OF exact_keeps_sign])

text \<open>
  C8. With a threshold \<open>t \<ge> 0\<close> held fixed, for any two tokens of the same input the
  tables hold their frequencies \<open>f1\<close>, \<open>f2\<close> and their drop probabilities
  \<open>p1 = 1 - sqrt (t / f1)\<close>, \<open>p2 = 1 - sqrt (t / f2)\<close>, each operation rounded as the
  program rounds it, and \<open>f1 \<le> f2\<close> gives \<open>p1 \<le> p2\<close>. This holds for every rounding
  that keeps the sign and is monotone, so for the floats of the program and for exact
  arithmetic.
\<close>

theorem drop_probability_monotone:
  assumes "rounding_keeps_sign ops" and "rounding_monotone ops"
    and "0 \<le> threshold" and "w1 \<in> set words" and "w2 \<in> set words"
  shows "\<exists>freqs p_drop f1 f2 p1 p2.
           subsampling_freqs ops words = Inr freqs \<and>
           subsampling_p_drop ops words threshold = Inr p_drop \<and>
           lookup freqs w1 = Inr f1 \<and> lookup freqs w2 = Inr f2 \<and>
           lookup p_drop w1 = Inr (Some p1) \<and> lookup p_drop w2 = Inr (Some p2) \<and>
           p1 = rsub ops 1 (rsqrt ops (rdiv ops threshold f1)) \<and>
           p2 = rsub ops 1 (rsqrt ops (rdiv ops threshold f2)) \<and>
           (f1 \<le> f2 \<longrightarrow> p1 \<le> p2)"
proof -
  let ?freqs = "map (\<lambda>kc. (fst kc, rdiv ops (real (snd kc)) (real (length words)))) (Counter words)"
  let ?p_drop = "map (\<lambda>w. (w, p_drop_value ops words threshold w)) (map fst (Counter words))"
  have p1: "lookup ?p_drop w1 = Inr (Some (drop_probability ops words threshold w1))"
    unfolding lookup_p_drop[OF assms(4)] p_drop_value_nonneg[OF assms(1,3,4)] ..
  have p2: "lookup ?p_drop w2 = Inr (Some (drop_probability ops words threshold w2))"
    unfolding lookup_p_drop[OF assms(5)] p_drop_value_nonneg[OF assms(1,3,5)] ..
  have mono: "frequency ops words w1 \<le> frequency ops words w2 \<longrightarrow>
        drop_probability ops words threshold w1 \<le> drop_probability ops words threshold w2"
    unfolding drop_probability_def
    using drop_probability_mono[OF assms(1,2,3) frequency_pos[OF assms(1,4)]] by blast
  show ?thesis
    apply (rule exI[where x = ?freqs])
    apply (rule exI[where x = ?p_drop])
    apply (rule exI[where x = "frequency ops words w1"])
    apply (rule exI[where x = "frequency ops words w2"])
    apply (rule exI[where x = "drop_probability ops words threshold w1"])
    apply (rule exI[where x = "drop_probability ops words threshold w2"])
    apply (intro conjI)
            apply (rule subsampling_freqs_char)
           apply (rule subsampling_p_drop_char[OF assms(1)])
          apply (rule lookup_freqs[OF assms(4)])
         apply (rule lookup_freqs[OF assms(5)])
        apply (rule p1)
       apply (rule p2)
      apply (rule drop_probability_def)
     apply (rule drop_probability_def)
    apply (rule mono)
    done
qed

theorem drop_probability_monotone_witness:
  "(0 :: real) \<le> 1 / 100000 \<and> (2 :: int) \<in> set [1, 2, 1] \<and> (1 :: int) \<in> set [1, 2, 1] \<and>
   (\<exists>freqs p_drop f1 f2 p1 p2.
           subsampling_freqs exact [1, 2, 1 :: int] = Inr freqs \<and>
           subsampling_p_drop exact [1, 2, 1 :: int] (1 / 100000) = Inr p_drop \<and>
           lookup freqs 2 = Inr f1 \<and> lookup freqs 1 = Inr f2 \<and>
           lookup p_drop 2 = Inr (Some p1) \<and> lookup p_drop 1 = Inr (Some p2) \<and>
           p1 = rsub exact 1 (rsqrt exact (rdiv exact (1 / 100000) f1)) \<and>
           p2 = rsub exact 1 (rsqrt exact (rdiv exact (1 / 100000) f2)) \<and>
           (f1 \<le> f2 \<longrightarrow> p1 \<le> p2))"
proof -
  have h1: "(0 :: real) \<le> 1 / 100000" by simp
  have h2: "(2 :: int) \<in> set [1, 2, 1]" by simp
  have h3: "(1 :: int) \<in> set [1, 2, 1]" by simp
  show ?thesis
    by (rule conjI[OF h1 conjI[OF h2 conjI[OF h3
          drop_probability_monotone[OF exact_keeps_sign exact_monotone h1 h2 h3]]]])
qed

text \<open>
  C4, as stated, fails on the boundary: the code keeps an occurrence when
  \<^verbatim>\<open>p_drop[word] < random.random()\<close>, so it drops it when the draw equals the drop
  probability, while the claim drops only on a draw less than it. For the one-token
  sequence \<open>[7]\<close> and the threshold 1 the drop probability is 0 (no operation rounds:
  \<open>1 / 1\<close>, \<open>sqrt 1\<close> and \<open>1 - 1\<close> are exact in floats); with the draw 0 the token is
  dropped although the draw is not less than 0.
\<close>

theorem subsampling_drops_on_equal_draw:
  "subsampling exact [7 :: int] 1 ((!) [0]) = Inr [] \<and>
   drop_probability exact [7 :: int] 1 7 = 0 \<and>
   \<not> ([0 :: real] ! 0 < drop_probability exact [7 :: int] 1 7)"
  by (simp add: subsampling_def subsampling_p_drop_def subsampling_freqs_def Counter_def
      py_truediv_def lookup_def np_sqrt_def nan_less_def drop_probability_def frequency_def exact_def)

text \<open>
  C4, amended. For a threshold \<open>t \<ge> 0\<close> the subsampler computes for each token its
  frequency \<open>f\<close> (count over length) and its drop probability \<open>p = 1 - sqrt (t / f)\<close>,
  each operation rounded as the program rounds it, and returns, in order, the
  occurrences whose draw is greater than the stored \<open>p\<close>: the occurrence number \<open>k\<close> is
  dropped exactly when its draw \<open>random k\<close> is less than or equal to the stored \<open>p\<close>.
  This holds for every rounding that keeps the sign.
\<close>

theorem subsampling_drop_rule:
  assumes "rounding_keeps_sign ops" and "0 \<le> threshold"
  shows "(\<exists>freqs p_drop.
            subsampling_freqs ops words = Inr freqs \<and>
            subsampling_p_drop ops words threshold = Inr p_drop \<and>
            (\<forall>w \<in> set words.
               lookup freqs w = Inr (rdiv ops (real (count_list words w)) (real (length words))) \<and>
               lookup p_drop w = Inr (Some (drop_probability ops words threshold w)))) \<and>
         drop_probability ops words threshold w =
           rsub ops 1 (rsqrt ops (rdiv ops threshold
             (rdiv ops (real (count_list words w)) (real (length words))))) \<and>
         subsampling ops words threshold random =
           Inr (map snd (filter (\<lambda>kw. \<not> random (fst kw) \<le> drop_probability ops words threshold (snd kw))
                           (zip [0 ..< length words] words)))"
proof (intro conjI)
  let ?freqs = "map (\<lambda>kc. (fst kc, rdiv ops (real (snd kc)) (real (length words)))) (Counter words)"
  let ?p_drop = "map (\<lambda>w. (w, p_drop_value ops words threshold w)) (map fst (Counter words))"
  have each: "lookup ?freqs w = Inr (rdiv ops (real (count_list words w)) (real (length words))) \<and>
               lookup ?p_drop w = Inr (Some (drop_probability ops words threshold w))"
    if w: "w \<in> set words" for w
    using lookup_freqs[OF w, of ops] lookup_p_drop[OF w, of ops threshold]
      p_drop_value_nonneg[OF assms w]
    by (simp add: frequency_def)
  show "\<exists>freqs p_drop.
            subsampling_freqs ops words = Inr freqs \<and>
            subsampling_p_drop ops words threshold = Inr p_drop \<and>
            (\<forall>w \<in> set words.
               lookup freqs w = Inr (rdiv ops (real (count_list words w)) (real (length words))) \<and>
               lookup p_drop w = Inr (Some (drop_probability ops words threshold w)))"
    apply (rule exI[where x = ?freqs])
    apply (rule exI[where x = ?p_drop])
    apply (rule conjI[OF subsampling_freqs_char conjI[OF subsampling_p_drop_char[OF assms(1)]]])
    apply (rule ballI)
    apply (rule each)
    apply assumption
    done
  show "drop_probability ops words threshold w =
           rsub ops 1 (rsqrt ops (rdiv ops threshold
             (rdiv ops (real (count_list words w)) (real (length words)))))"
    by (simp add: drop_probability_def frequency_def)
  have "filter (\<lambda>kw. nan_less (p_drop_value ops words threshold (snd kw)) (random (fst kw)))
          (zip [0 ..< length words] words) =
        filter (\<lambda>kw. \<not> random (fst kw) \<le> drop_probability ops words threshold (snd kw))
          (zip [0 ..< length words] words)"
  proof (rule filter_cong[OF refl])
    fix kw assume "kw \<in> set (zip [0 ..< length words] words)"
    then have "snd kw \<in> set words" by (metis prod.collapse set_zip_rightD)
    from p_drop_value_nonneg[OF assms this]
    show "nan_less (p_drop_value ops words threshold (snd kw)) (random (fst kw)) =
          (\<not> random (fst kw) \<le> drop_probability ops words threshold (snd kw))"
      by (simp add: nan_less_def not_le)
  qed
  then show "subsampling ops words threshold random =
           Inr (map snd (filter (\<lambda>kw. \<not> random (fst kw) \<le> drop_probability ops words threshold (snd kw))
                           (zip [0 ..< length words] words)))"
    unfolding subsampling_char[OF assms(1)] by simp
qed

theorem subsampling_drop_rule_witness:
  "(0 :: real) \<le> 1 / 100000 \<and>
   ((\<exists>freqs p_drop.
            subsampling_freqs exact [1, 2, 1 :: int] = Inr freqs \<and>
            subsampling_p_drop exact [1, 2, 1 :: int] (1 / 100000) = Inr p_drop \<and>
            (\<forall>w \<in> set [1, 2, 1 :: int].
               lookup freqs w = Inr (rdiv exact (real (count_list [1, 2, 1 :: int] w)) (real (length [1, 2, 1 :: int]))) \<and>
               lookup p_drop w = Inr (Some (drop_probability exact [1, 2, 1 :: int] (1 / 100000) w)))) \<and>
         drop_probability exact [1, 2, 1 :: int] (1 / 100000) 1 =
           rsub exact 1 (rsqrt exact (rdiv exact (1 / 100000)
             (rdiv exact (real (count_list [1, 2, 1 :: int] 1)) (real (length [1, 2, 1 :: int]))))) \<and>
         subsampling exact [1, 2, 1 :: int] (1 / 100000) ((!) [1 / 2, 1 / 2, 1 / 2]) =
           Inr (map snd (filter (\<lambda>kw. \<not> (!) [1 / 2, 1 / 2, 1 / 2] (fst kw) \<le> drop_probability exact [1, 2, 1 :: int] (1 / 100000) (snd kw))
                           (zip [0 ..< length [1, 2, 1 :: int]] [1, 2, 1 :: int]))))"
proof -
  have h1: "(0 :: real) \<le> 1 / 100000" by simp
  show ?thesis by (rule conjI[OF h1 subsampling_drop_rule[OF exact_keeps_sign h1]])
qed

section \<open>Sorting and ranking\<close>

lemma zip_upt_pairs:
  "set (zip keys [0 ..< length keys]) = {(keys ! i, i) | i. i < length keys}"
  by (auto simp: set_zip)

lemma argsort_stable_set: "set (argsort_stable keys) = {0 ..< length keys}"
proof -
  have "set (argsort_stable keys) = snd ` set (zip keys [0 ..< length keys])"
    by (simp add: argsort_stable_def)
  also have "\<dots> = {0 ..< length keys}"
    unfolding zip_upt_pairs by force
  finally show ?thesis .
qed

lemma argsort_stable_distinct: "distinct (argsort_stable keys)"
proof -
  have "distinct (zip keys [0 ..< length keys])" by (simp add: distinct_zipI2)
  moreover have "inj_on snd (set (zip keys [0 ..< length keys]))"
    unfolding zip_upt_pairs by (auto simp: inj_on_def)
  ultimately show ?thesis
    by (simp add: argsort_stable_def distinct_map)
qed

lemma argsort_stable_perm: "sort (argsort_stable keys) = [0 ..< length keys]"
proof (rule sorted_distinct_set_unique)
  show "sorted (sort (argsort_stable keys))" by simp
  show "distinct (sort (argsort_stable keys))" by (simp add: argsort_stable_distinct)
  show "sorted [0 ..< length keys]" by simp
  show "distinct [0 ..< length keys]" by simp
  show "set (sort (argsort_stable keys)) = set [0 ..< length keys]"
    by (simp add: argsort_stable_set)
qed

lemma map_keys_argsort_stable:
  "map ((!) keys) (argsort_stable keys) = map fst (sort (zip keys [0 ..< length keys]))"
proof -
  have "\<forall>z \<in> set (sort (zip keys [0 ..< length keys])). keys ! snd z = fst z"
    using zip_upt_pairs[of keys] by auto
  then show ?thesis by (simp add: argsort_stable_def)
qed

lemma sorted_map_fst:
  fixes zs :: "('a::linorder \<times> 'b::linorder) list"
  shows "sorted zs \<Longrightarrow> sorted (map fst zs)"
  by (induction zs) (auto simp: less_eq_prod_def)

lemma argsort_stable_sorted: "sorted (map ((!) keys) (argsort_stable keys))"
  unfolding map_keys_argsort_stable by (rule sorted_map_fst) simp

lemma argsort_perm: "sort (argsort tie keys) = [0 ..< length keys]"
  by (simp add: argsort_def Let_def argsort_stable_perm)

lemma argsort_sorted: "sorted (map ((!) keys) (argsort tie keys))"
  by (simp add: argsort_def Let_def argsort_stable_sorted)

lemma argsort_set: "set (argsort tie keys) = {0 ..< length keys}"
proof -
  have "set (argsort tie keys) = set (sort (argsort tie keys))" by simp
  then show ?thesis unfolding argsort_perm by simp
qed

lemma argsort_distinct: "distinct (argsort tie keys)"
proof -
  have "distinct (sort (argsort tie keys))" unfolding argsort_perm by simp
  then show ?thesis by simp
qed

lemma argsort_length: "length (argsort tie keys) = length keys"
proof -
  have "length (sort (argsort tie keys)) = length keys" unfolding argsort_perm by simp
  then show ?thesis by simp
qed

lemma argsort_hd_least:
  assumes "j < length keys"
  shows "keys ! hd (argsort tie keys) \<le> keys ! j"
proof -
  let ?p = "argsort tie keys"
  have "j \<in> set ?p" using assms by (simp add: argsort_set)
  then obtain m where m: "m < length ?p" "?p ! m = j" by (auto simp: in_set_conv_nth)
  then have ne: "?p \<noteq> []" by auto
  have "map ((!) keys) ?p ! 0 \<le> map ((!) keys) ?p ! m"
    using argsort_sorted[of keys tie] m(1) by (simp add: sorted_iff_nth_mono del: nth_map)
  then show ?thesis using m ne by (simp add: hd_conv_nth)
qed

lemma argsort_hd_strict:
  assumes "q < length keys" "\<forall>j < length keys. j \<noteq> q \<longrightarrow> keys ! q < keys ! j"
  shows "hd (argsort tie keys) = q"
proof (rule ccontr)
  let ?h = "hd (argsort tie keys)"
  assume ne: "?h \<noteq> q"
  have "argsort tie keys \<noteq> []" using assms(1) argsort_length[of tie keys] by auto
  then have "?h \<in> set (argsort tie keys)" by simp
  then have "?h < length keys" by (simp add: argsort_set)
  with assms(2) ne have "keys ! q < keys ! ?h" by blast
  moreover have "keys ! ?h \<le> keys ! q" by (rule argsort_hd_least[OF assms(1)])
  ultimately show False by simp
qed

lemma set_py_slice_from_one: "set (py_slice p 1 b) \<subseteq> set (tl p)"
proof (cases p)
  case Nil
  then show ?thesis by (simp add: py_slice_def)
next
  case (Cons x xs)
  then have "slice_bound (length p) 1 = 1" by (simp add: slice_bound_def)
  then have "py_slice p 1 b = take (slice_bound (length p) b - 1) (drop 1 p)"
    by (simp add: py_slice_def Let_def)
  then show ?thesis using Cons by (simp add: set_take_subset)
qed

lemma hd_notin_nearest:
  assumes "sim_row \<noteq> []"
  shows "hd (argsort tie (map neg_key sim_row)) \<notin> set (nearest tie sim_row top_k)"
proof -
  let ?p = "argsort tie (map neg_key sim_row)"
  have "?p \<noteq> []" using assms argsort_length[of tie "map neg_key sim_row"] by auto
  then have "hd ?p \<notin> set (tl ?p)"
    using argsort_distinct[of tie "map neg_key sim_row"] by (cases ?p) auto
  then show ?thesis
    unfolding nearest_def using set_py_slice_from_one[of ?p "top_k + 1"] by blast
qed

lemma embedding_lookup_char:
  assumes "\<forall>c \<in> set ids. 0 \<le> c \<and> c < int (length params)"
  shows "embedding_lookup params ids = Inr (map (\<lambda>c. params ! nat c) ids)"
  using assms by (induction ids) auto

lemma validate_char:
  assumes "\<forall>c \<in> set int_codes. 0 \<le> c \<and> c < int (length embeddings)"
  shows "validate embeddings int_codes =
         Inr (map (\<lambda>c. map (dot (map (\<lambda>row. map (\<lambda>x. fl_div x (norm_row row)) row) embeddings ! nat c))
                         (map (\<lambda>row. map (\<lambda>x. fl_div x (norm_row row)) row) embeddings))
                int_codes)"
proof -
  let ?N = "map (\<lambda>row. map (\<lambda>x. fl_div x (norm_row row)) row) embeddings"
  have "\<forall>c \<in> set int_codes. 0 \<le> c \<and> c < int (length ?N)" using assms by simp
  from embedding_lookup_char[OF this] show ?thesis
    by (simp add: validate_def Let_def o_def)
qed

lemma dictionary_path_300_100: "dictionary_path_of 300 100 = ''model_data_300_100.cpkt''"
  by code_simp

section \<open>Claims about the nearest-neighbour validation\<close>

text \<open>
  C2, as stated, fails: the top-K list leaves out the id ranked first, which need not be
  the query. In the table with the two equal rows \<open>[1, 0]\<close> every similarity is 1. With
  the ids ranked \<open>[0, 1]\<close> the nearest neighbour of the query 1 is 1 itself; with the
  ids ranked \<open>[1, 0]\<close> the nearest neighbour of the query 0 is 0 itself.
\<close>

theorem nearest_contains_query:
  "validate [[1, 0], [1, 0]] [0, 1] = Inr [[Some 1, Some 1], [Some 1, Some 1]] \<and>
   nearest argsort_stable [Some 1, Some 1] 1 = [1] \<and>
   nearest (rev \<circ> argsort_stable) [Some 1, Some 1] 1 = [0]"
  by (simp add: validate_def norm_row_def fl_div_def dot_def fl_mul_def fl_add_def
      nearest_def argsort_def argsort_stable_def neg_key_def py_slice_def slice_bound_def
      upt_rec[of 0] upt_rec[of 1] upt_rec[of "Suc 0"])

text \<open>
  C2, amended. For query ids within the range of the table, \<open>validate\<close> returns one row
  of similarities per query, and the top-K list never contains the id ranked first.
  When the similarity of the query to itself is strictly greater than its similarity to
  every other id, the query is ranked first, and the top-K list does not contain it.
\<close>

theorem nearest_excludes_query:
  assumes "\<forall>c \<in> set int_codes. 0 \<le> c \<and> c < int (length embeddings)"
    and "i < length int_codes"
  shows "\<exists>sim. validate embeddings int_codes = Inr sim \<and>
           length sim = length int_codes \<and>
           length (sim ! i) = length embeddings \<and>
           hd (argsort tie (map neg_key (sim ! i))) \<notin> set (nearest tie (sim ! i) top_k) \<and>
           ((\<forall>j < length embeddings. j \<noteq> nat (int_codes ! i) \<longrightarrow>
               neg_key (sim ! i ! nat (int_codes ! i)) < neg_key (sim ! i ! j)) \<longrightarrow>
            hd (argsort tie (map neg_key (sim ! i))) = nat (int_codes ! i) \<and>
            nat (int_codes ! i) \<notin> set (nearest tie (sim ! i) top_k))"
  (is "\<exists>sim. ?Q sim")
proof -
  let ?N = "map (\<lambda>row. map (\<lambda>x. fl_div x (norm_row row)) row) embeddings"
  let ?sim = "map (\<lambda>c. map (dot (?N ! nat c)) ?N) int_codes"
  let ?q = "nat (int_codes ! i)"
  have row: "?sim ! i = map (dot (?N ! ?q)) ?N" using assms(2) by simp
  have len: "length (?sim ! i) = length embeddings" unfolding row by simp
  have "int_codes ! i \<in> set int_codes" using assms(2) by simp
  with assms(1) have q: "?q < length embeddings" by auto
  then have ne: "?sim ! i \<noteq> []" using len by auto
  have hd: "hd (argsort tie (map neg_key (?sim ! i))) \<notin> set (nearest tie (?sim ! i) top_k)"
    by (rule hd_notin_nearest[OF ne])
  have strict: "hd (argsort tie (map neg_key (?sim ! i))) = ?q \<and>
                ?q \<notin> set (nearest tie (?sim ! i) top_k)"
    if best: "\<forall>j < length embeddings. j \<noteq> ?q \<longrightarrow> neg_key (?sim ! i ! ?q) < neg_key (?sim ! i ! j)"
  proof -
    let ?keys = "map neg_key (?sim ! i)"
    have ql: "?q < length ?keys" using q len by simp
    have "\<forall>j < length ?keys. j \<noteq> ?q \<longrightarrow> ?keys ! ?q < ?keys ! j"
    proof (intro allI impI)
      fix j assume j: "j < length ?keys" "j \<noteq> ?q"
      then have "j < length embeddings" using len by simp
      with best j(2) have "neg_key (?sim ! i ! ?q) < neg_key (?sim ! i ! j)" by blast
      then show "?keys ! ?q < ?keys ! j" using j(1) ql by simp
    qed
    from argsort_hd_strict[OF ql this] have h: "hd (argsort tie ?keys) = ?q" .
    with hd show ?thesis by simp
  qed
  have Q: "?Q ?sim"
  proof (intro conjI impI)
    show "validate embeddings int_codes = Inr ?sim" by (rule validate_char[OF assms(1)])
    show "length ?sim = length int_codes" by simp
    show "length (?sim ! i) = length embeddings" by (rule len)
    show "hd (argsort tie (map neg_key (?sim ! i))) \<notin> set (nearest tie (?sim ! i) top_k)" by (rule hd)
  next
    assume b: "\<forall>j < length embeddings. j \<noteq> ?q \<longrightarrow> neg_key (?sim ! i ! ?q) < neg_key (?sim ! i ! j)"
    show "hd (argsort tie (map neg_key (?sim ! i))) = ?q" using strict[OF b] by (rule conjunct1)
  next
    assume b: "\<forall>j < length embeddings. j \<noteq> ?q \<longrightarrow> neg_key (?sim ! i ! ?q) < neg_key (?sim ! i ! j)"
    show "?q \<notin> set (nearest tie (?sim ! i) top_k)" using strict[OF b] by (rule conjunct2)
  qed
  show ?thesis by (rule exI[where x = ?sim]) (rule Q)
qed

theorem nearest_excludes_query_witness:
  "(0 :: nat) < length [0 :: int] \<and>
   validate [[1, 0], [0, 1]] [0] = Inr [[Some 1, Some 0]] \<and>
   hd (argsort argsort_stable (map neg_key ([[Some 1, Some 0]] ! 0))) = nat ([0] ! 0) \<and>
   nat ([0] ! 0) \<notin> set (nearest argsort_stable ([[Some 1, Some 0]] ! 0) 1)"
proof -
  have h1: "\<forall>c \<in> set [0 :: int]. 0 \<le> c \<and> c < int (length [[1, 0], [0, 1 :: real]])" by simp
  have h2: "(0 :: nat) < length [0 :: int]" by simp
  have v: "validate [[1, 0], [0, 1]] [0] = Inr [[Some 1, Some 0]]"
    by (simp add: validate_def norm_row_def fl_div_def dot_def fl_mul_def fl_add_def)
  have best: "\<forall>j < length [[1, 0], [0, 1 :: real]]. j \<noteq> nat ([0] ! 0) \<longrightarrow>
      neg_key ([[Some 1, Some 0]] ! 0 ! nat ([0] ! 0)) < neg_key ([[Some 1, Some 0]] ! 0 ! j)"
    by (simp add: neg_key_def less_Suc_eq numeral_2_eq_2)
  from nearest_excludes_query[OF h1 h2, of argsort_stable 1]
  obtain sim where s: "validate [[1, 0], [0, 1]] [0] = Inr sim"
    and imp: "(\<forall>j < length [[1, 0], [0, 1 :: real]]. j \<noteq> nat ([0] ! 0) \<longrightarrow>
               neg_key (sim ! 0 ! nat ([0] ! 0)) < neg_key (sim ! 0 ! j)) \<longrightarrow>
            hd (argsort argsort_stable (map neg_key (sim ! 0))) = nat ([0] ! 0) \<and>
            nat ([0] ! 0) \<notin> set (nearest argsort_stable (sim ! 0) 1)"
    by (elim exE conjE)
  have sim: "sim = [[Some 1, Some 0]]" using s v by simp
  from imp best have "hd (argsort argsort_stable (map neg_key ([[Some 1, Some 0]] ! 0))) = nat ([0] ! 0) \<and>
      nat ([0] ! 0) \<notin> set (nearest argsort_stable ([[Some 1, Some 0]] ! 0) 1)"
    unfolding sim by (elim impE)
  with h2 v show ?thesis by (intro conjI) (elim conjE, assumption)+
qed

section \<open>Claims about saving the vocabulary\<close>

text \<open>
  C5. The artifact should be written once, with the two mappings and the two
  hyperparameters, whether or not a file of that name existed before. The cell does so
  only when no such file exists. When the file exists, it is removed and nothing is
  written: after the cell there is no artifact.
\<close>

theorem save_vocabulary_removes_existing:
  "files (save_vocabulary [(''the'', 0)] [(0, ''the'')] 300 100
            \<lparr>files = [''model_data_300_100.cpkt'' \<mapsto>
                        \<lparr>vocab_to_int = [], int_to_vocab = [], embed_dim = 300, num_sampled = 100\<rparr>],
             dumps = 0\<rparr>)
     ''model_data_300_100.cpkt'' = None \<and>
   dumps (save_vocabulary [(''the'', 0)] [(0, ''the'')] 300 100
            \<lparr>files = [''model_data_300_100.cpkt'' \<mapsto>
                        \<lparr>vocab_to_int = [], int_to_vocab = [], embed_dim = 300, num_sampled = 100\<rparr>],
             dumps = 0\<rparr>) = 0 \<and>
   files (save_vocabulary [(''the'', 0)] [(0, ''the'')] 300 100 \<lparr>files = Map.empty, dumps = 0\<rparr>)
     ''model_data_300_100.cpkt''
     = Some \<lparr>vocab_to_int = [(''the'', 0)], int_to_vocab = [(0, ''the'')],
              embed_dim = 300, num_sampled = 100\<rparr> \<and>
   dumps (save_vocabulary [(''the'', 0)] [(0, ''the'')] 300 100 \<lparr>files = Map.empty, dumps = 0\<rparr>) = 1"
  by (simp add: save_vocabulary_def dictionary_path_300_100)

end
